theory Spec2Isabelle
  imports Complex_Main "HOL-Library.AList" "HOL-Library.Monad_Syntax" "HOL-Library.Multiset"
begin

section \<open>The calendar utility\<close>

text \<open>
  The scheduler of \<^verbatim>\<open>src/scheduler.js\<close> calls the dayjs library for every date. The
  library is not part of the repository, so what it computes from a string is a parameter
  of the model (the record \<open>calendar\<close>). A dayjs value is either a calendar day, counted
  in days from 1970-01-01, or the invalid date. Numbers are modelled as exact reals:
  rounding, infinities and NaN of IEEE doubles are outside the model.
\<close>

datatype dayjs = Date int | InvalidDate

record calendar =
  parse :: "bool \<Rightarrow> string \<Rightarrow> dayjs"
    \<comment> \<open>\<^verbatim>\<open>dayjs(s, "YYYY-MM-DD", strict)\<close>\<close>
  now :: int
    \<comment> \<open>\<^verbatim>\<open>dayjs()\<close>, the day of the call\<close>
  has_max :: bool
    \<comment> \<open>whether \<^verbatim>\<open>dayjs.max\<close> is defined\<close>

fun isValid :: "dayjs \<Rightarrow> bool" where
  "isValid (Date n) = True"
| "isValid InvalidDate = False"

text \<open>Comparisons with an invalid date are false, as comparisons with NaN are.\<close>

fun isBefore :: "dayjs \<Rightarrow> dayjs \<Rightarrow> bool" where
  "isBefore (Date a) (Date b) = (a < b)"
| "isBefore _ _ = False"

fun isAfter :: "dayjs \<Rightarrow> dayjs \<Rightarrow> bool" where
  "isAfter (Date a) (Date b) = (a > b)"
| "isAfter _ _ = False"

definition WEEKDAY_NAME :: "string list" where
  "WEEKDAY_NAME = [''Sun'', ''Mon'', ''Tue'', ''Wed'', ''Thu'', ''Fri'', ''Sat'']"

text \<open>\<^verbatim>\<open>d.day()\<close>: 0 is Sunday; 1970-01-01 was a Thursday.\<close>

definition day :: "int \<Rightarrow> nat" where
  "day n = nat ((n + 4) mod 7)"

definition parseDate :: "calendar \<Rightarrow> string \<Rightarrow> dayjs option" where
  "parseDate cal s = (if isValid (parse cal True s) then Some (parse cal False s) else None)"

text \<open>
  \<^verbatim>\<open>nextWorkday\<close>: the loop may run forever, so not returning is the value \<open>None\<close>.
  On the invalid date \<^verbatim>\<open>d.day()\<close> is NaN, \<^verbatim>\<open>WEEKDAY_NAME[NaN]\<close> is undefined, no list
  of names includes it, and adding a day gives the invalid date again. The date returned
  passed the test of the loop, so it is a calendar day: the result is its day number.
\<close>

partial_function (option) nextWorkday :: "dayjs \<Rightarrow> string list \<Rightarrow> int option" where
  "nextWorkday d workDays =
     (case d of
        Date n \<Rightarrow>
          if WEEKDAY_NAME ! day n \<in> set workDays then Some n
          else nextWorkday (Date (n + 1)) workDays
      | InvalidDate \<Rightarrow> nextWorkday InvalidDate workDays)"

declare nextWorkday.simps [code]

section \<open>Input, output and errors\<close>

text \<open>
  A field that the caller may leave out is an option. A title is missing (\<open>None\<close>) or a
  string; \<open>estimatedHours\<close> is \<open>None\<close> when it is not a number; \<open>dependencies\<close> is
  \<open>None\<close> when it is not an array.
\<close>

record raw_task =
  raw_title :: "string option"
  raw_estimatedHours :: "real option"
  raw_dueDate :: string
  raw_dependencies :: "string list option"

record input =
  tasks :: "raw_task list option"
  workHoursPerDay :: "real option"
  workDays :: "string list option"
  startDate :: "string option"

record task =
  title :: string
  estimatedHours :: real
  dueDate :: dayjs
  dependencies :: "string list"

record allocation =
  alloc_title :: string
  hours :: real

text \<open>
  The date of a day record is the string \<^verbatim>\<open>currentDay.format("YYYY-MM-DD")\<close> in the
  source; the model keeps the day number that the string writes.
\<close>

record day_record =
  date :: int
  allocations :: "allocation list"

text \<open>A warning names the task, its due date and the current day.\<close>

type_synonym warning = "string \<times> dayjs \<times> int"

record result =
  recommendedOrder :: "string list"
  schedule :: "day_record list"
  warnings :: "warning list"

text \<open>
  The state of the allocator: the three values that are returned at the end, and the
  variables \<^verbatim>\<open>currentDay\<close>, \<^verbatim>\<open>freeHoursToday\<close> and \<^verbatim>\<open>finishedAt\<close>.
\<close>

record alloc_state = result +
  currentDay :: int
  freeHoursToday :: real
  finishedAt :: "(string \<times> int) list"

datatype error =
    TasksNotArray
  | InvalidTask raw_task
  | InvalidDueDate string
  | DuplicateTitle string
  | UnknownDependency string string
  | SelfDependency string
  | CycleDetected
  | TypeError

section \<open>Maps\<close>

text \<open>
  A JavaScript \<open>Map\<close> keyed by titles is an association list in insertion order:
  \<open>map_of\<close> reads a key, \<open>AList.update\<close> replaces the value in place or appends a
  new entry, as \<^verbatim>\<open>Map.prototype.set\<close> does.
\<close>

type_synonym 'v jsmap = "(string \<times> 'v) list"

definition has :: "'v jsmap \<Rightarrow> string \<Rightarrow> bool" where
  "has m k = (map_of m k \<noteq> None)"

text \<open>
  The in-degrees are numbers: \<open>None\<close> is NaN, which is what arithmetic on the undefined
  value of an absent key gives.
\<close>

definition get_num :: "int option jsmap \<Rightarrow> string \<Rightarrow> int option" where
  "get_num m k = (case map_of m k of Some v \<Rightarrow> v | None \<Rightarrow> None)"

section \<open>Task registry\<close>

fun register :: "calendar \<Rightarrow> raw_task list \<Rightarrow> task jsmap \<Rightarrow> error + task jsmap" where
  "register cal [] taskMap = Inr taskMap"
| "register cal (t # ts) taskMap =
     (case (raw_title t, raw_estimatedHours t) of
        (Some ti, Some h) \<Rightarrow>
          if ti = [] \<or> h \<le> 0 then Inl (InvalidTask t)
          else (case parseDate cal (raw_dueDate t) of
                  None \<Rightarrow> Inl (InvalidDueDate ti)
                | Some due \<Rightarrow>
                    if has taskMap ti then Inl (DuplicateTitle ti)
                    else register cal ts
                      (AList.update ti
                         \<lparr>title = ti, estimatedHours = h, dueDate = due,
                          dependencies = (case raw_dependencies t of Some ds \<Rightarrow> ds | None \<Rightarrow> [])\<rparr>
                         taskMap))
      | _ \<Rightarrow> Inl (InvalidTask t))"

fun check_deps :: "task jsmap \<Rightarrow> string \<Rightarrow> string list \<Rightarrow> error option" where
  "check_deps taskMap ti [] = None"
| "check_deps taskMap ti (d # ds) =
     (if \<not> has taskMap d then Some (UnknownDependency ti d)
      else if d = ti then Some (SelfDependency ti)
      else check_deps taskMap ti ds)"

fun validate_deps :: "task jsmap \<Rightarrow> (string \<times> task) list \<Rightarrow> error option" where
  "validate_deps taskMap [] = None"
| "validate_deps taskMap ((ti, t) # es) =
     (case check_deps taskMap ti (dependencies t) of
        Some e \<Rightarrow> Some e
      | None \<Rightarrow> validate_deps taskMap es)"

section \<open>Dependency sequencer\<close>

fun init_graph :: "string list \<Rightarrow> int option jsmap \<times> string list jsmap
    \<Rightarrow> int option jsmap \<times> string list jsmap" where
  "init_graph [] (indeg, adj) = (indeg, adj)"
| "init_graph (ti # tis) (indeg, adj) =
     init_graph tis (AList.update ti (Some 0) indeg, AList.update ti [] adj)"

text \<open>
  \<^verbatim>\<open>adj.get(dep).push(title)\<close> is a TypeError when \<open>dep\<close> is no key of \<open>adj\<close>.
\<close>

fun add_edges :: "string \<Rightarrow> string list \<Rightarrow> int option jsmap \<times> string list jsmap
    \<Rightarrow> error + int option jsmap \<times> string list jsmap" where
  "add_edges ti [] (indeg, adj) = Inr (indeg, adj)"
| "add_edges ti (dep # deps) (indeg, adj) =
     (case map_of adj dep of
        None \<Rightarrow> Inl TypeError
      | Some l \<Rightarrow>
          add_edges ti deps
            (AList.update ti (map_option (\<lambda>n. n + 1) (get_num indeg ti)) indeg,
             AList.update dep (l @ [ti]) adj))"

fun build_graph :: "(string \<times> task) list \<Rightarrow> int option jsmap \<times> string list jsmap
    \<Rightarrow> error + int option jsmap \<times> string list jsmap" where
  "build_graph [] g = Inr g"
| "build_graph ((ti, t) # es) g =
     (case add_edges ti (dependencies t) g of
        Inl e \<Rightarrow> Inl e
      | Inr g' \<Rightarrow> build_graph es g')"

text \<open>
  \<^verbatim>\<open>a.localeCompare(b)\<close> is the collation of the host. Modelled from the spec: the third
  key of the priority is the lexicographic order of the titles, here by character code.
\<close>

fun localeCompare :: "string \<Rightarrow> string \<Rightarrow> int" where
  "localeCompare [] [] = 0"
| "localeCompare [] (y # ys) = - 1"
| "localeCompare (x # xs) [] = 1"
| "localeCompare (x # xs) (y # ys) =
     (if (of_char x :: nat) < of_char y then - 1
      else if (of_char x :: nat) > of_char y then 1
      else localeCompare xs ys)"

text \<open>
  The comparator reads \<^verbatim>\<open>taskMap.get(a).dueDate\<close>: a TypeError when a title is no key.
\<close>

definition cmp :: "task jsmap \<Rightarrow> string \<Rightarrow> string \<Rightarrow> error + int" where
  "cmp taskMap a b =
     (case (map_of taskMap a, map_of taskMap b) of
        (Some ta, Some tb) \<Rightarrow>
          Inr (if isBefore (dueDate ta) (dueDate tb) then - 1
               else if isAfter (dueDate ta) (dueDate tb) then 1
               else if estimatedHours ta > estimatedHours tb then - 1
               else if estimatedHours ta < estimatedHours tb then 1
               else localeCompare a b)
      | _ \<Rightarrow> Inl TypeError)"

definition cmp_le :: "task jsmap \<Rightarrow> string \<Rightarrow> string \<Rightarrow> bool" where
  "cmp_le taskMap a b = (case cmp taskMap a b of Inr c \<Rightarrow> c \<le> 0 | Inl e \<Rightarrow> True)"

text \<open>
  \<^verbatim>\<open>available.sort(cmp)\<close>. The sort of the engine is stable; for a comparator that is a
  total order every stable sort returns the same array, and the model is insertion sort.
  Which pairs the engine compares is its own choice: the model raises the TypeError of
  the comparator as soon as some title of the array is no key of \<open>taskMap\<close>.
\<close>

fun insort_cmp :: "task jsmap \<Rightarrow> string \<Rightarrow> string list \<Rightarrow> string list" where
  "insort_cmp taskMap x [] = [x]"
| "insort_cmp taskMap x (y # ys) =
     (if cmp_le taskMap x y then x # y # ys else y # insort_cmp taskMap x ys)"

definition sort_cmp :: "task jsmap \<Rightarrow> string list \<Rightarrow> error + string list" where
  "sort_cmp taskMap xs =
     (if \<forall>x \<in> set xs. has taskMap x then Inr (foldr (insort_cmp taskMap) xs [])
      else Inl TypeError)"

text \<open>The inner loop of Kahn's algorithm, over the dependents \<open>nb\<close> of the task removed.\<close>

fun relax :: "task jsmap \<Rightarrow> string list \<Rightarrow> int option jsmap \<Rightarrow> string list
    \<Rightarrow> error + int option jsmap \<times> string list" where
  "relax taskMap [] indeg available = Inr (indeg, available)"
| "relax taskMap (nb # nbs) indeg available =
     (let indeg' = AList.update nb (map_option (\<lambda>n. n - 1) (get_num indeg nb)) indeg in
      if get_num indeg' nb = Some 0 then
        (case sort_cmp taskMap (available @ [nb]) of
           Inl e \<Rightarrow> Inl e
         | Inr available' \<Rightarrow> relax taskMap nbs indeg' available')
      else relax taskMap nbs indeg' available)"

text \<open>
  The measure of Kahn's loop: the length of \<open>available\<close> plus the number of keys whose
  in-degree is positive. A task is pushed only when its in-degree falls from 1 to 0.
\<close>

definition pos :: "int option jsmap \<Rightarrow> nat" where
  "pos indeg = card {k. \<exists>n>0. map_of indeg k = Some (Some n)}"

lemma finite_pos: "finite {k. \<exists>n>0. map_of indeg k = Some (Some n)}"
  by (rule finite_subset [OF _ finite_dom_map_of [of indeg]]) auto

lemma length_insort_cmp: "length (insort_cmp tm x xs) = Suc (length xs)"
  by (induction xs) auto

lemma length_foldr_insort: "length (foldr (insort_cmp tm) xs []) = length xs"
  by (induction xs) (auto simp: length_insort_cmp)

lemma length_sort_cmp: "sort_cmp tm xs = Inr ys \<Longrightarrow> length ys = length xs"
  by (auto simp: sort_cmp_def length_foldr_insort split: if_splits)

lemma pos_dec_zero:
  assumes "get_num indeg nb = Some 1"
  shows "Suc (pos (AList.update nb (Some 0) indeg)) = pos indeg"
proof -
  let ?A = "{k. \<exists>n>0. map_of indeg k = Some (Some n)}"
  have nb: "nb \<in> ?A" using assms by (auto simp: get_num_def split: option.splits)
  have "{k. \<exists>n>0. map_of (AList.update nb (Some 0) indeg) k = Some (Some n)} = ?A - {nb}"
    by (auto simp: update_conv')
  then have "pos (AList.update nb (Some 0) indeg) = card (?A - {nb})"
    by (simp add: pos_def)
  with card_Suc_Diff1 [OF finite_pos [of indeg] nb] show ?thesis
    by (simp add: pos_def)
qed

lemma pos_dec_other:
  "pos (AList.update nb (map_option (\<lambda>n. n - 1) (get_num indeg nb)) indeg) \<le> pos indeg"
  unfolding pos_def
  by (rule card_mono [OF finite_pos])
     (auto simp: update_conv' get_num_def split: option.splits if_splits)

lemma relax_measure:
  "relax tm nbs indeg av = Inr (indeg', av') \<Longrightarrow> length av' + pos indeg' \<le> length av + pos indeg"
proof (induction nbs arbitrary: indeg av)
  case Nil
  then show ?case by simp
next
  case (Cons nb nbs)
  let ?v = "map_option (\<lambda>n. n - 1) (get_num indeg nb)"
  let ?i = "AList.update nb ?v indeg"
  have g: "get_num ?i nb = ?v" by (simp add: get_num_def update_conv')
  show ?case
  proof (cases "?v = Some 0")
    case True
    then have one: "get_num indeg nb = Some 1" by (cases "get_num indeg nb") auto
    from Cons.prems True g obtain av1 where s: "sort_cmp tm (av @ [nb]) = Inr av1"
      and r: "relax tm nbs ?i av1 = Inr (indeg', av')"
      by (auto simp: Let_def split: sum.splits)
    from Cons.IH [OF r] length_sort_cmp [OF s] pos_dec_zero [OF one] True
    show ?thesis by simp
  next
    case False
    with Cons.prems g have r: "relax tm nbs ?i av = Inr (indeg', av')"
      by (auto simp: Let_def)
    from Cons.IH [OF r] pos_dec_other [of nb indeg] show ?thesis by simp
  qed
qed

text \<open>
  Kahn's loop: \<^verbatim>\<open>cur = available.shift(); topo.push(cur)\<close>, then the inner loop over
  \<^verbatim>\<open>adj.get(cur)\<close>, a TypeError when \<open>cur\<close> is no key of \<open>adj\<close>.
\<close>

function kahn :: "task jsmap \<Rightarrow> string list jsmap \<Rightarrow> int option jsmap \<Rightarrow> string list
    \<Rightarrow> string list \<Rightarrow> error + string list" where
  "kahn taskMap adj indeg [] topo = Inr topo"
| "kahn taskMap adj indeg (cur # available) topo =
     (case map_of adj cur of
        None \<Rightarrow> Inl TypeError
      | Some nbs \<Rightarrow>
          (case relax taskMap nbs indeg available of
             Inl e \<Rightarrow> Inl e
           | Inr (indeg', available') \<Rightarrow> kahn taskMap adj indeg' available' (topo @ [cur])))"
  by pat_completeness auto
termination
  by (relation "measure (\<lambda>(taskMap, adj, indeg, available, topo). length available + pos indeg)")
     (auto dest: relax_measure)

text \<open>
  The sequencer: the graph, the titles of in-degree 0 in the order of the map, sorted,
  Kahn's loop, and the test that every task was emitted.
\<close>

definition sequence :: "task jsmap \<Rightarrow> error + string list" where
  "sequence taskMap =
     (case build_graph taskMap (init_graph (map fst taskMap) ([], [])) of
        Inl e \<Rightarrow> Inl e
      | Inr (indeg, adj) \<Rightarrow>
          (case sort_cmp taskMap (map fst (filter (\<lambda>(ti, deg). deg = Some 0) indeg)) of
             Inl e \<Rightarrow> Inl e
           | Inr available \<Rightarrow>
               (case kahn taskMap adj indeg available [] of
                  Inl e \<Rightarrow> Inl e
                | Inr topo \<Rightarrow>
                    if length topo \<noteq> length taskMap then Inl CycleDetected else Inr topo)))"

section \<open>Calendar allocator\<close>

text \<open>
  \<^verbatim>\<open>addAllocation\<close>: the first record of the date gets the allocation at its end; when
  there is none, a new record is pushed.
\<close>

fun addAllocation :: "int \<Rightarrow> string \<Rightarrow> real \<Rightarrow> day_record list \<Rightarrow> day_record list" where
  "addAllocation d ti h [] = [\<lparr>date = d, allocations = [\<lparr>alloc_title = ti, hours = h\<rparr>]\<rparr>]"
| "addAllocation d ti h (s # ss) =
     (if date s = d
      then s\<lparr>allocations := allocations s @ [\<lparr>alloc_title = ti, hours = h\<rparr>]\<rparr> # ss
      else s # addAllocation d ti h ss)"

definition advanceToNextWorkday :: "string list \<Rightarrow> real \<Rightarrow> alloc_state \<Rightarrow> alloc_state option" where
  "advanceToNextWorkday wds hoursPerDay st =
     do { d \<leftarrow> nextWorkday (Date (currentDay st + 1)) wds;
          Some (st\<lparr>currentDay := d, freeHoursToday := hoursPerDay\<rparr>) }"

text \<open>
  The loop \<^verbatim>\<open>while (rem > 0)\<close> of one task \<open>t\<close> with title \<open>ti\<close>. It may run forever
  (no free hours on any day, or no next workday), so not returning is \<open>None\<close>.
\<close>

partial_function (option) allocate :: "string list \<Rightarrow> real \<Rightarrow> task \<Rightarrow> string \<Rightarrow> real
    \<Rightarrow> alloc_state \<Rightarrow> alloc_state option" where
  "allocate wds hoursPerDay t ti rem st =
     (if rem > 0 then
        (let st1 = (if isAfter (Date (currentDay st)) (dueDate t) \<and> rem > 0
                    then st\<lparr>warnings := warnings st @ [(ti, dueDate t, currentDay st)]\<rparr>
                    else st)
         in if freeHoursToday st1 \<le> 0
            then advanceToNextWorkday wds hoursPerDay st1 \<bind> allocate wds hoursPerDay t ti rem
            else
              (let alloc = min (freeHoursToday st1) rem;
                   st2 = st1\<lparr>schedule := addAllocation (currentDay st1) ti alloc (schedule st1)\<rparr>;
                   rem' = rem - alloc;
                   st3 = st2\<lparr>freeHoursToday := freeHoursToday st2 - alloc\<rparr>
               in if rem' > 0
                  then advanceToNextWorkday wds hoursPerDay st3
                         \<bind> allocate wds hoursPerDay t ti rem'
                  else allocate wds hoursPerDay t ti rem' st3))
      else Some st)"

declare allocate.simps [code]

text \<open>
  The loop over the dependencies that finds \<^verbatim>\<open>earliestReady\<close>. A dependency without
  finish date takes the fallback, \<^verbatim>\<open>dayjs.max(earliestReady, dayjs())\<close> or \<^verbatim>\<open>dayjs()\<close>.
\<close>

fun earliest_ready :: "calendar \<Rightarrow> (string \<times> int) list \<Rightarrow> string list \<Rightarrow> int \<Rightarrow> int" where
  "earliest_ready cal fin [] earliestReady = earliestReady"
| "earliest_ready cal fin (d # ds) earliestReady =
     earliest_ready cal fin ds
       (case map_of fin d of
          None \<Rightarrow> if has_max cal then max earliestReady (now cal) else now cal
        | Some f \<Rightarrow> if f > earliestReady then f else earliestReady)"

text \<open>
  \<^verbatim>\<open>lastDayRecord\<close>: the last record of the schedule with an allocation of the title.
\<close>

definition lastDayRecord :: "day_record list \<Rightarrow> string \<Rightarrow> day_record option" where
  "lastDayRecord sch ti = find (\<lambda>r. list_ex (\<lambda>a. alloc_title a = ti) (allocations r)) (rev sch)"

text \<open>
  One round of the loop over \<open>topo\<close>. \<^verbatim>\<open>taskMap.get(title).dependencies\<close> and
  \<^verbatim>\<open>lastDayRecord.date\<close> are TypeErrors on an absent title and on a task without
  allocation. The map \<open>remaining\<close> is read once per title and never written after its
  initialisation; \<open>readyAfter\<close> is never read and is left out.
\<close>

definition schedule_task :: "calendar \<Rightarrow> task jsmap \<Rightarrow> real jsmap \<Rightarrow> string list \<Rightarrow> real
    \<Rightarrow> string \<Rightarrow> alloc_state \<Rightarrow> (error + alloc_state) option" where
  "schedule_task cal taskMap remaining wds hoursPerDay ti st =
     (case map_of taskMap ti of
        None \<Rightarrow> Some (Inl TypeError)
      | Some t \<Rightarrow>
          do {
            let earliestReady = earliest_ready cal (finishedAt st) (dependencies t) 0;
            st1 \<leftarrow> (if earliestReady > currentDay st
                    then do { d \<leftarrow> nextWorkday (Date earliestReady) wds;
                              Some (st\<lparr>currentDay := d, freeHoursToday := hoursPerDay\<rparr>) }
                    else Some st);
            st2 \<leftarrow> (case map_of remaining ti of
                      None \<Rightarrow> Some st1
                    | Some rem \<Rightarrow> allocate wds hoursPerDay t ti rem st1);
            (case lastDayRecord (schedule st2) ti of
               None \<Rightarrow> Some (Inl TypeError)
             | Some r \<Rightarrow>
                 Some (Inr (st2\<lparr>finishedAt := AList.update ti (date r) (finishedAt st2)\<rparr>)))
          })"

fun allocate_all :: "calendar \<Rightarrow> task jsmap \<Rightarrow> real jsmap \<Rightarrow> string list \<Rightarrow> real
    \<Rightarrow> string list \<Rightarrow> alloc_state \<Rightarrow> (error + alloc_state) option" where
  "allocate_all cal taskMap remaining wds hoursPerDay [] st = Some (Inr st)"
| "allocate_all cal taskMap remaining wds hoursPerDay (ti # tis) st =
     (case schedule_task cal taskMap remaining wds hoursPerDay ti st of
        None \<Rightarrow> None
      | Some (Inl e) \<Rightarrow> Some (Inl e)
      | Some (Inr st') \<Rightarrow> allocate_all cal taskMap remaining wds hoursPerDay tis st')"

section \<open>The entry point\<close>

text \<open>
  \<^verbatim>\<open>scheduleTasks\<close>. The result is \<open>None\<close> when the call does not return,
  \<open>Some (Inl e)\<close> when it throws and \<open>Some (Inr r)\<close> when it returns \<open>r\<close>. An absent
  \<open>workHoursPerDay\<close> or \<open>workDays\<close> takes its default; an absent or empty
  \<open>startDate\<close> is falsy and the day of the call is taken. The start is parsed without
  the strict flag and its validity is not tested. \<^verbatim>\<open>dayjs(today.format("YYYY-MM-DD"))\<close>
  drops the time of day, which the model does not have.
\<close>

definition scheduleTasks :: "calendar \<Rightarrow> input \<Rightarrow> (error + result) option" where
  "scheduleTasks cal inp =
     (let hoursPerDay = (case workHoursPerDay inp of Some h \<Rightarrow> h | None \<Rightarrow> 8);
          wds = (case workDays inp of Some w \<Rightarrow> w
                 | None \<Rightarrow> [''Mon'', ''Tue'', ''Wed'', ''Thu'', ''Fri''])
      in case tasks inp of
           None \<Rightarrow> Some (Inl TasksNotArray)
         | Some [] \<Rightarrow> Some (Inl TasksNotArray)
         | Some ts \<Rightarrow>
             (case register cal ts [] of
                Inl e \<Rightarrow> Some (Inl e)
              | Inr taskMap \<Rightarrow>
                  (case validate_deps taskMap taskMap of
                     Some e \<Rightarrow> Some (Inl e)
                   | None \<Rightarrow>
                       (case sequence taskMap of
                          Inl e \<Rightarrow> Some (Inl e)
                        | Inr topo \<Rightarrow>
                            do {
                              let today = (case startDate inp of
                                             Some s \<Rightarrow> if s \<noteq> [] then parse cal False s
                                                       else Date (now cal)
                                           | None \<Rightarrow> Date (now cal));
                              d \<leftarrow> nextWorkday today wds;
                              r \<leftarrow> allocate_all cal taskMap
                                     (map (\<lambda>(ti, t). (ti, estimatedHours t)) taskMap)
                                     wds hoursPerDay topo
                                     \<lparr>recommendedOrder = topo, schedule = [], warnings = [],
                                      currentDay = d, freeHoursToday = hoursPerDay,
                                      finishedAt = []\<rparr>;
                              Some (map_sum id result.truncate r)
                            }))))"

section \<open>A calendar to run the scheduler on\<close>

text \<open>
  Modelled from the spec: the calendar utility (dayjs), which is not in the repository.
  "Dates use the fixed YYYY-MM-DD format with strict validation": four digits, a dash, two
  digits, a dash, two digits, naming a day of the proleptic Gregorian calendar. The
  theorems below hold for every calendar; this one evaluates them on concrete inputs. It
  reads a string the same way with and without the strict flag.
\<close>

definition digit :: "char \<Rightarrow> int option" where
  "digit c = map_of [(CHR ''0'', 0), (CHR ''1'', 1), (CHR ''2'', 2), (CHR ''3'', 3),
     (CHR ''4'', 4), (CHR ''5'', 5), (CHR ''6'', 6), (CHR ''7'', 7), (CHR ''8'', 8),
     (CHR ''9'', 9)] c"

fun number :: "string \<Rightarrow> int \<Rightarrow> int option" where
  "number [] acc = Some acc"
| "number (c # cs) acc = (case digit c of None \<Rightarrow> None | Some d \<Rightarrow> number cs (10 * acc + d))"

definition days_in_month :: "int \<Rightarrow> int \<Rightarrow> int" where
  "days_in_month y m =
     (if m = 2 then (if y mod 4 = 0 \<and> (y mod 100 \<noteq> 0 \<or> y mod 400 = 0) then 29 else 28)
      else if m = 4 \<or> m = 6 \<or> m = 9 \<or> m = 11 then 30 else 31)"

text \<open>The number of days from 1970-01-01 to the day \<open>d\<close> of month \<open>m\<close> of year \<open>y\<close>.\<close>

definition days_from_civil :: "int \<Rightarrow> int \<Rightarrow> int \<Rightarrow> int" where
  "days_from_civil y m d =
     (let y' = (if m \<le> 2 then y - 1 else y);
          era = y' div 400;
          yoe = y' - era * 400;
          doy = (153 * (if m > 2 then m - 3 else m + 9) + 2) div 5 + d - 1;
          doe = yoe * 365 + yoe div 4 - yoe div 100 + doy
      in era * 146097 + doe - 719468)"

definition iso_parse :: "string \<Rightarrow> dayjs" where
  "iso_parse s =
     (if length s = 10 \<and> s ! 4 = CHR ''-'' \<and> s ! 7 = CHR ''-'' then
        (case (number (take 4 s) 0, number (take 2 (drop 5 s)) 0, number (drop 8 s) 0) of
           (Some y, Some m, Some d) \<Rightarrow>
             if 1 \<le> m \<and> m \<le> 12 \<and> 1 \<le> d \<and> d \<le> days_in_month y m
             then Date (days_from_civil y m d) else InvalidDate
         | _ \<Rightarrow> InvalidDate)
      else InvalidDate)"

definition iso_calendar :: "int \<Rightarrow> calendar" where
  "iso_calendar today = \<lparr>parse = (\<lambda>strict. iso_parse), now = today, has_max = False\<rparr>"

section \<open>Properties of the registry\<close>

definition normalize_task :: "calendar \<Rightarrow> raw_task \<Rightarrow> string \<times> task" where
  "normalize_task cal t =
     (the (raw_title t),
      \<lparr>title = the (raw_title t), estimatedHours = the (raw_estimatedHours t),
       dueDate = parse cal False (raw_dueDate t),
       dependencies = (case raw_dependencies t of Some ds \<Rightarrow> ds | None \<Rightarrow> [])\<rparr>)"

definition well_formed :: "calendar \<Rightarrow> raw_task \<Rightarrow> bool" where
  "well_formed cal t =
     (case (raw_title t, raw_estimatedHours t) of
        (Some ti, Some h) \<Rightarrow> ti \<noteq> [] \<and> h > 0 \<and> isValid (parse cal True (raw_dueDate t))
      | _ \<Rightarrow> False)"

lemma update_fresh: "map_of m k = None \<Longrightarrow> AList.update k v m = m @ [(k, v)]"
  by (induction m) (auto split: if_splits)

lemma register_Inr:
  "register cal ts tm0 = Inr tm \<longleftrightarrow>
     tm = tm0 @ map (normalize_task cal) ts \<and> list_all (well_formed cal) ts \<and>
     distinct (map (\<lambda>t. the (raw_title t)) ts) \<and>
     (\<forall>t \<in> set ts. the (raw_title t) \<notin> fst ` set tm0)"
proof (induction ts arbitrary: tm0)
  case Nil
  then show ?case by auto
next
  case (Cons t ts)
  show ?case
  proof (cases "well_formed cal t \<and> the (raw_title t) \<notin> fst ` set tm0")
    case True
    then obtain ti h where th: "raw_title t = Some ti" "raw_estimatedHours t = Some h"
        "ti \<noteq> []" "h > 0" "isValid (parse cal True (raw_dueDate t))"
      by (auto simp: well_formed_def split: option.splits)
    from True th have fresh: "map_of tm0 ti = None"
      by (simp add: map_of_eq_None_iff)
    have step: "register cal (t # ts) tm0 = register cal ts (tm0 @ [normalize_task cal t])"
      using th fresh by (simp add: parseDate_def has_def update_fresh normalize_task_def)
    show ?thesis
      unfolding step Cons.IH using True th
      by (auto simp: normalize_task_def image_Un)
  next
    case False
    then have "\<exists>e. register cal (t # ts) tm0 = Inl e"
      by (auto simp: well_formed_def parseDate_def has_def map_of_eq_None_iff
          split: option.splits)
    with False show ?thesis by auto
  qed
qed

lemma check_deps_None:
  "check_deps tm ti ds = None \<longleftrightarrow> (\<forall>d \<in> set ds. has tm d \<and> d \<noteq> ti)"
  by (induction ds) auto

lemma validate_deps_None:
  "validate_deps tm es = None \<longleftrightarrow>
     (\<forall>(ti, t) \<in> set es. \<forall>d \<in> set (dependencies t). has tm d \<and> d \<noteq> ti)"
  by (induction es) (auto simp: check_deps_None split: option.splits)

section \<open>Properties of the graph\<close>

text \<open>The dependency edges \<open>(dep, title)\<close>, in the order in which the source adds them.\<close>

definition edges :: "(string \<times> task) list \<Rightarrow> (string \<times> string) list" where
  "edges es = concat (map (\<lambda>(ti, t). map (\<lambda>d. (d, ti)) (dependencies t)) es)"

definition graph_inv :: "string list \<Rightarrow> (string \<times> string) list
    \<Rightarrow> int option jsmap \<times> string list jsmap \<Rightarrow> bool" where
  "graph_inv ks E g =
     (map fst (fst g) = ks \<and>
      (\<forall>k \<in> set ks.
         get_num (fst g) k = Some (int (length (filter (\<lambda>e. snd e = k) E))) \<and>
         map_of (snd g) k = Some (map snd (filter (\<lambda>e. fst e = k) E))))"

lemma init_graph_append:
  "distinct (map fst indeg @ tis) \<Longrightarrow> map fst adj = map fst indeg \<Longrightarrow>
   init_graph tis (indeg, adj) =
     (indeg @ map (\<lambda>k. (k, Some 0)) tis, adj @ map (\<lambda>k. (k, [])) tis)"
proof (induction tis arbitrary: indeg adj)
  case Nil
  then show ?case by simp
next
  case (Cons ti tis)
  from Cons.prems have f: "map_of indeg ti = None" "map_of adj ti = None"
    by (auto simp: map_of_eq_None_iff simp flip: set_map)
  from Cons.prems show ?case
    by (simp add: update_fresh f Cons.IH)
qed

lemma map_of_const_map: "map_of (map (\<lambda>k. (k, c)) ks) k = (if k \<in> set ks then Some c else None)"
  by (induction ks) auto

lemma graph_inv_init:
  "distinct ks \<Longrightarrow> graph_inv ks [] (init_graph ks ([], []))"
  by (simp add: init_graph_append graph_inv_def get_num_def map_of_const_map comp_def)

lemma graph_inv_edge:
  assumes inv: "graph_inv ks E (indeg, adj)" and ti: "ti \<in> set ks" and dep: "dep \<in> set ks"
    and l: "map_of adj dep = Some l"
  shows "graph_inv ks (E @ [(dep, ti)])
           (AList.update ti (map_option (\<lambda>n. n + 1) (get_num indeg ti)) indeg,
            AList.update dep (l @ [ti]) adj)"
proof -
  from inv have ks: "map fst indeg = ks" by (simp add: graph_inv_def)
  with ti have "ti \<in> set (map fst indeg)" by simp
  then have keys: "map fst (AList.update ti v indeg) = ks" for v
    using ks by (simp add: update_keys)
  from inv l dep have l_eq: "l = map snd (filter (\<lambda>e. fst e = dep) E)"
    by (auto simp: graph_inv_def)
  show ?thesis
    unfolding graph_inv_def using inv keys l_eq
    by (auto simp: graph_inv_def get_num_def update_conv')
qed

lemma add_edges_inv:
  "graph_inv ks E g \<Longrightarrow> ti \<in> set ks \<Longrightarrow> set deps \<subseteq> set ks \<Longrightarrow>
   \<exists>g'. add_edges ti deps g = Inr g' \<and> graph_inv ks (E @ map (\<lambda>d. (d, ti)) deps) g'"
proof (induction deps arbitrary: E g)
  case Nil
  then show ?case by (cases g) simp
next
  case (Cons dep deps)
  obtain indeg adj where g: "g = (indeg, adj)" by (cases g)
  from Cons.prems g obtain l where l: "map_of adj dep = Some l"
    by (auto simp: graph_inv_def)
  from Cons.prems g l have "graph_inv ks (E @ [(dep, ti)])
           (AList.update ti (map_option (\<lambda>n. n + 1) (get_num indeg ti)) indeg,
            AList.update dep (l @ [ti]) adj)"
    by (intro graph_inv_edge) auto
  from Cons.IH [OF this] Cons.prems show ?case
    by (simp add: g l)
qed

lemma build_graph_inv:
  "graph_inv ks E g \<Longrightarrow> \<forall>(ti, t) \<in> set es. ti \<in> set ks \<and> set (dependencies t) \<subseteq> set ks \<Longrightarrow>
   \<exists>g'. build_graph es g = Inr g' \<and> graph_inv ks (E @ edges es) g'"
proof (induction es arbitrary: E g)
  case Nil
  then show ?case by (simp add: edges_def)
next
  case (Cons p es)
  obtain ti t where p: "p = (ti, t)" by (cases p)
  from Cons.prems p obtain g1 where g1: "add_edges ti (dependencies t) g = Inr g1"
      and inv1: "graph_inv ks (E @ map (\<lambda>d. (d, ti)) (dependencies t)) g1"
    using add_edges_inv [of ks E g ti "dependencies t"] by auto
  from Cons.IH [OF inv1] Cons.prems show ?case
    by (auto simp: p g1 edges_def)
qed

section \<open>Properties of the sort\<close>

lemma set_insort_cmp: "set (insort_cmp tm x xs) = insert x (set xs)"
  by (induction xs) auto

lemma distinct_insort_cmp: "distinct (insort_cmp tm x xs) = (x \<notin> set xs \<and> distinct xs)"
  by (induction xs) (auto simp: set_insort_cmp)

lemma set_foldr_insort: "set (foldr (insort_cmp tm) xs []) = set xs"
  by (induction xs) (auto simp: set_insort_cmp)

lemma distinct_foldr_insort: "distinct (foldr (insort_cmp tm) xs []) = distinct xs"
  by (induction xs) (auto simp: distinct_insort_cmp set_foldr_insort)

lemma sort_cmp_Inr:
  "sort_cmp tm xs = Inr ys \<longleftrightarrow> set xs \<subseteq> fst ` set tm \<and> ys = foldr (insort_cmp tm) xs []"
  by (auto simp: sort_cmp_def has_def map_of_eq_None_iff)

lemma sort_cmp_set: "sort_cmp tm xs = Inr ys \<Longrightarrow> set ys = set xs"
  by (simp add: sort_cmp_Inr set_foldr_insort)

lemma sort_cmp_distinct: "sort_cmp tm xs = Inr ys \<Longrightarrow> distinct ys = distinct xs"
  by (simp add: sort_cmp_Inr distinct_foldr_insort)

section \<open>Properties of the inner loop\<close>

lemma relax_effect:
  assumes "set nbs \<subseteq> fst ` set tm" "set av \<subseteq> fst ` set tm" "distinct av"
    and "\<forall>t \<in> fst ` set tm. get_num indeg t = Some (int (c t))"
    and "\<forall>t. count_list nbs t \<le> c t"
    and "\<forall>t \<in> set av. c t = 0"
  shows "\<exists>indeg' av'. relax tm nbs indeg av = Inr (indeg', av') \<and>
     (\<forall>t \<in> fst ` set tm. get_num indeg' t = Some (int (c t - count_list nbs t))) \<and>
     set av' = set av \<union> {t \<in> set nbs. c t = count_list nbs t} \<and> distinct av'"
  using assms
proof (induction nbs arbitrary: indeg av c)
  case Nil
  then show ?case by simp
next
  case (Cons nb nbs)
  let ?i = "AList.update nb (map_option (\<lambda>n. n - 1) (get_num indeg nb)) indeg"
  from Cons.prems have nbK: "nb \<in> fst ` set tm" by simp
  with Cons.prems have gn: "get_num indeg nb = Some (int (c nb))" by blast
  have "count_list (nb # nbs) nb \<le> c nb" using Cons.prems(5) by blast
  then have cnb: "Suc (count_list nbs nb) \<le> c nb" by simp
  let ?c = "c(nb := c nb - 1)"
  have gi: "\<forall>t \<in> fst ` set tm. get_num ?i t = Some (int (?c t))"
    using Cons.prems(4) gn cnb by (auto simp: get_num_def update_conv' of_nat_diff)
  have cnt: "\<forall>t. count_list nbs t \<le> ?c t"
  proof
    fix t
    from Cons.prems(5) have "count_list (nb # nbs) t \<le> c t" by blast
    with cnb show "count_list nbs t \<le> ?c t" by (auto split: if_splits)
  qed
  have nb_av: "nb \<notin> set av" using Cons.prems(6) cnb by auto
  have gnb: "get_num ?i nb = Some (int (c nb) - 1)"
    using gn by (simp add: get_num_def update_conv')
  show ?case
  proof (cases "c nb = 1")
    case True
    from Cons.prems nbK obtain av1 where s: "sort_cmp tm (av @ [nb]) = Inr av1"
      by (auto simp: sort_cmp_Inr)
    have av1: "set av1 = insert nb (set av)" "distinct av1"
      using sort_cmp_set [OF s] sort_cmp_distinct [OF s] nb_av Cons.prems(3) by auto
    have z: "\<forall>t \<in> set av1. ?c t = 0" using av1 Cons.prems(6) True by auto
    have "set nbs \<subseteq> fst ` set tm" "set av1 \<subseteq> fst ` set tm"
      using Cons.prems av1 nbK by auto
    from Cons.IH [OF this av1(2) gi cnt z] obtain indeg' av' where
      r: "relax tm nbs ?i av1 = Inr (indeg', av')"
      and g': "\<forall>t \<in> fst ` set tm. get_num indeg' t = Some (int (?c t - count_list nbs t))"
      and s': "set av' = set av1 \<union> {t \<in> set nbs. ?c t = count_list nbs t}"
      and d': "distinct av'" by blast
    have step: "relax tm (nb # nbs) indeg av = Inr (indeg', av')"
      using gnb True s r by (simp add: Let_def)
    have nbs0: "count_list nbs nb = 0" using cnb True by simp
    then have nb_nbs: "nb \<notin> set nbs" by (simp add: count_list_0_iff)
    have g'': "\<forall>t \<in> fst ` set tm. get_num indeg' t = Some (int (c t - count_list (nb # nbs) t))"
      using g' True nbs0 by auto
    have s'': "set av' = set av \<union> {t \<in> set (nb # nbs). c t = count_list (nb # nbs) t}"
      using s' av1 True nbs0 nb_nbs by auto
    from step g'' s'' d' show ?thesis by blast
  next
    case False
    have z: "\<forall>t \<in> set av. ?c t = 0" using Cons.prems(6) nb_av by auto
    have "set nbs \<subseteq> fst ` set tm" "set av \<subseteq> fst ` set tm"
      using Cons.prems by auto
    from Cons.IH [OF this Cons.prems(3) gi cnt z] obtain indeg' av' where
      r: "relax tm nbs ?i av = Inr (indeg', av')"
      and g': "\<forall>t \<in> fst ` set tm. get_num indeg' t = Some (int (?c t - count_list nbs t))"
      and s': "set av' = set av \<union> {t \<in> set nbs. ?c t = count_list nbs t}"
      and d': "distinct av'" by blast
    have step: "relax tm (nb # nbs) indeg av = Inr (indeg', av')"
      using gnb False cnb r by (simp add: Let_def)
    have g'': "\<forall>t \<in> fst ` set tm. get_num indeg' t = Some (int (c t - count_list (nb # nbs) t))"
      using g' by auto
    have "{t \<in> set nbs. ?c t = count_list nbs t} = {t \<in> set (nb # nbs). c t = count_list (nb # nbs) t}"
      using cnb False by (auto simp: count_list_0_iff)
    with s' have s'': "set av' = set av \<union> {t \<in> set (nb # nbs). c t = count_list (nb # nbs) t}"
      by simp
    from step g'' s'' d' show ?thesis by blast
  qed
qed

section \<open>Properties of Kahn's loop\<close>

text \<open>
  \<open>pending E topo t\<close> counts the edges into \<open>t\<close> whose source is not yet emitted: the
  in-degree that the loop keeps for \<open>t\<close>.
\<close>

definition pending :: "(string \<times> string) list \<Rightarrow> string list \<Rightarrow> string \<Rightarrow> nat" where
  "pending E topo t = length (filter (\<lambda>e. snd e = t \<and> fst e \<notin> set topo) E)"

definition graph_ok :: "task jsmap \<Rightarrow> string list jsmap \<Rightarrow> bool" where
  "graph_ok tm adj =
     (distinct (map fst tm) \<and>
      (\<forall>e \<in> set (edges tm). fst e \<in> fst ` set tm \<and> snd e \<in> fst ` set tm \<and> fst e \<noteq> snd e) \<and>
      (\<forall>k \<in> fst ` set tm. map_of adj k = Some (map snd (filter (\<lambda>e. fst e = k) (edges tm)))))"

definition kahn_inv :: "task jsmap \<Rightarrow> string list \<Rightarrow> string list \<Rightarrow> int option jsmap \<Rightarrow> bool" where
  "kahn_inv tm topo av indeg =
     (distinct (topo @ av) \<and> set (topo @ av) \<subseteq> fst ` set tm \<and>
      (\<forall>t \<in> fst ` set tm. get_num indeg t = Some (int (pending (edges tm) topo t))) \<and>
      (\<forall>t \<in> fst ` set tm. (t \<in> set (topo @ av)) = (pending (edges tm) topo t = 0)) \<and>
      (\<forall>i < length topo. \<forall>e \<in> set (edges tm). snd e = topo ! i \<longrightarrow> fst e \<in> set (take i topo)))"

lemma pending_snoc:
  "cur \<notin> set topo \<Longrightarrow>
   pending E topo t = count_list (map snd (filter (\<lambda>e. fst e = cur) E)) t + pending E (topo @ [cur]) t"
  unfolding pending_def by (induction E) auto

lemma pending_0: "pending E topo t = 0 \<longleftrightarrow> (\<forall>e \<in> set E. snd e = t \<longrightarrow> fst e \<in> set topo)"
  unfolding pending_def by (auto simp: filter_empty_conv)

lemma kahn_step:
  assumes ok: "graph_ok tm adj" and inv: "kahn_inv tm topo (cur # rest) indeg"
  shows "\<exists>nbs indeg' av'. map_of adj cur = Some nbs \<and>
     relax tm nbs indeg rest = Inr (indeg', av') \<and> kahn_inv tm (topo @ [cur]) av' indeg' \<and>
     set av' = set rest \<union> {t \<in> set nbs. pending (edges tm) (topo @ [cur]) t = 0}"
proof -
  let ?E = "edges tm" and ?K = "fst ` set tm"
  let ?nbs = "map snd (filter (\<lambda>e. fst e = cur) ?E)"
  let ?c = "pending ?E topo"
  from inv have curK: "cur \<in> ?K" and cur_topo: "cur \<notin> set topo"
    and d: "distinct topo" "distinct rest" "cur \<notin> set rest" "set topo \<inter> set rest = {}"
    and sub: "set topo \<subseteq> ?K" "set rest \<subseteq> ?K"
    and gn: "\<forall>t \<in> ?K. get_num indeg t = Some (int (?c t))"
    and rdy: "\<forall>t \<in> ?K. (t \<in> set (topo @ cur # rest)) = (?c t = 0)"
    and ord: "\<forall>i < length topo. \<forall>e \<in> set ?E. snd e = topo ! i \<longrightarrow> fst e \<in> set (take i topo)"
    by (auto simp: kahn_inv_def)
  from ok curK have adj: "map_of adj cur = Some ?nbs" unfolding graph_ok_def by blast
  have nbsK: "set ?nbs \<subseteq> ?K" using ok by (auto simp: graph_ok_def)
  have split: "?c t = count_list ?nbs t + pending ?E (topo @ [cur]) t" for t
    by (rule pending_snoc [OF cur_topo])
  have cnt: "\<forall>t. count_list ?nbs t \<le> ?c t" using split by simp
  have z: "\<forall>t \<in> set rest. ?c t = 0" using rdy sub by auto
  from relax_effect [OF nbsK sub(2) d(2) gn cnt z] obtain indeg' av' where
    r: "relax tm ?nbs indeg rest = Inr (indeg', av')"
    and g': "\<forall>t \<in> ?K. get_num indeg' t = Some (int (?c t - count_list ?nbs t))"
    and s': "set av' = set rest \<union> {t \<in> set ?nbs. ?c t = count_list ?nbs t}"
    and d': "distinct av'" by blast
  have diff: "?c t - count_list ?nbs t = pending ?E (topo @ [cur]) t" for t
    using split [of t] by simp
  have s'': "set av' = set rest \<union> {t \<in> set ?nbs. pending ?E (topo @ [cur]) t = 0}"
    using s' split by auto
  have new: "t \<in> set ?nbs \<Longrightarrow> pending ?E (topo @ [cur]) t = 0 \<Longrightarrow> t \<notin> set (topo @ cur # rest)" for t
  proof -
    assume a: "t \<in> set ?nbs" "pending ?E (topo @ [cur]) t = 0"
    then have "count_list ?nbs t \<noteq> 0" by (simp add: count_list_0_iff)
    with split [of t] have "?c t \<noteq> 0" by simp
    moreover from a nbsK have "t \<in> ?K" by blast
    ultimately show ?thesis using rdy by auto
  qed
  have disj: "t \<notin> set topo \<and> t \<noteq> cur" if mem: "t \<in> set av'" for t
  proof -
    consider "t \<in> set rest"
      | "t \<in> set ?nbs" "pending ?E (topo @ [cur]) t = 0"
      using mem unfolding s'' by auto
    then show ?thesis
    proof cases
      case 1
      with d show ?thesis by blast
    next
      case 2
      from new [OF 2] show ?thesis by simp
    qed
  qed
  have i1: "distinct ((topo @ [cur]) @ av')"
    using d(1) d' cur_topo disj by auto
  have i2: "set ((topo @ [cur]) @ av') \<subseteq> ?K"
    using sub curK s'' nbsK by auto
  have i3: "\<forall>t \<in> ?K. get_num indeg' t = Some (int (pending ?E (topo @ [cur]) t))"
    using g' diff by simp
  have i4: "\<forall>t \<in> ?K. (t \<in> set ((topo @ [cur]) @ av')) = (pending ?E (topo @ [cur]) t = 0)"
  proof
    fix t assume tK: "t \<in> ?K"
    show "(t \<in> set ((topo @ [cur]) @ av')) = (pending ?E (topo @ [cur]) t = 0)"
    proof
      assume "t \<in> set ((topo @ [cur]) @ av')"
      then consider "t \<in> set (topo @ cur # rest)" | "t \<in> set ?nbs" "pending ?E (topo @ [cur]) t = 0"
        unfolding set_append s'' by auto
      then show "pending ?E (topo @ [cur]) t = 0"
      proof cases
        case 1
        with rdy tK have "?c t = 0" by auto
        with split [of t] show ?thesis by simp
      qed
    next
      assume p0: "pending ?E (topo @ [cur]) t = 0"
      show "t \<in> set ((topo @ [cur]) @ av')"
      proof (cases "count_list ?nbs t = 0")
        case True
        with split [of t] p0 have "?c t = 0" by simp
        with rdy tK have "t \<in> set (topo @ cur # rest)" by auto
        with s'' show ?thesis by auto
      next
        case False
        then have "t \<in> set ?nbs" by (simp add: count_list_0_iff)
        with p0 s'' show ?thesis by auto
      qed
    qed
  qed
  have cur0: "?c cur = 0" using rdy curK by auto
  have i5: "\<forall>i < length (topo @ [cur]). \<forall>e \<in> set ?E.
      snd e = (topo @ [cur]) ! i \<longrightarrow> fst e \<in> set (take i (topo @ [cur]))"
  proof (intro allI impI ballI)
    fix i e assume i: "i < length (topo @ [cur])" and e: "e \<in> set ?E"
      and se: "snd e = (topo @ [cur]) ! i"
    show "fst e \<in> set (take i (topo @ [cur]))"
    proof (cases "i < length topo")
      case True
      with ord e se show ?thesis by (auto simp: nth_append)
    next
      case False
      with i have il: "i = length topo" by simp
      with se have "snd e = cur" by simp
      with cur0 e have "fst e \<in> set topo" by (auto simp: pending_0)
      with il show ?thesis by simp
    qed
  qed
  have "kahn_inv tm (topo @ [cur]) av' indeg'"
    unfolding kahn_inv_def using i1 i2 i3 i4 i5 by blast
  with adj r s'' show ?thesis by blast
qed

lemma kahn_total:
  "graph_ok tm adj \<Longrightarrow> kahn_inv tm topo av indeg \<Longrightarrow>
   \<exists>topo' indeg'. kahn tm adj indeg av topo = Inr topo' \<and> kahn_inv tm topo' [] indeg'"
proof (induction tm adj indeg av topo rule: kahn.induct)
  case (1 taskMap adj indeg topo)
  then show ?case by auto
next
  case (2 taskMap adj indeg cur available topo)
  from kahn_step [OF "2.prems"] obtain nbs indeg' av' where
    a: "map_of adj cur = Some nbs" and r: "relax taskMap nbs indeg available = Inr (indeg', av')"
    and inv': "kahn_inv taskMap (topo @ [cur]) av' indeg'" by blast
  from "2.IH" [OF a r refl "2.prems"(1) inv'] show ?case
    by (simp add: a r)
qed

section \<open>Properties of the calendar loops\<close>

lemma nextWorkday_Some:
  assumes "nextWorkday d wds = Some n"
  shows "(\<exists>m. d = Date m \<and> m \<le> n) \<and> WEEKDAY_NAME ! day n \<in> set wds"
  using assms
proof (induction d wds n rule: nextWorkday.raw_induct [rotated 1, consumes 1])
  case (1 f d workDays da)
  show ?case
  proof (cases d)
    case (Date m)
    show ?thesis
    proof (cases "WEEKDAY_NAME ! day m \<in> set workDays")
      case True
      with 1(2) Date show ?thesis by simp
    next
      case False
      with 1(2) Date have "f (Date (m + 1)) workDays = Some da" by simp
      from 1(1) [OF this] Date show ?thesis by auto
    qed
  next
    case InvalidDate
    with 1(2) have "f InvalidDate workDays = Some da" by simp
    from 1(1) [OF this] show ?thesis by simp
  qed
qed

text \<open>One pass through the body of the loop of \<open>allocate\<close>: the hours left and the state.\<close>

definition alloc_iter :: "string list \<Rightarrow> real \<Rightarrow> task \<Rightarrow> string \<Rightarrow> real \<Rightarrow> alloc_state
    \<Rightarrow> (real \<times> alloc_state) option" where
  "alloc_iter wds hoursPerDay t ti rem st =
     (let st1 = (if isAfter (Date (currentDay st)) (dueDate t) \<and> rem > 0
                 then st\<lparr>warnings := warnings st @ [(ti, dueDate t, currentDay st)]\<rparr>
                 else st)
      in if freeHoursToday st1 \<le> 0
         then map_option (Pair rem) (advanceToNextWorkday wds hoursPerDay st1)
         else
           (let alloc = min (freeHoursToday st1) rem;
                st2 = st1\<lparr>schedule := addAllocation (currentDay st1) ti alloc (schedule st1)\<rparr>;
                rem' = rem - alloc;
                st3 = st2\<lparr>freeHoursToday := freeHoursToday st2 - alloc\<rparr>
            in if rem' > 0
               then map_option (Pair rem') (advanceToNextWorkday wds hoursPerDay st3)
               else Some (rem', st3)))"

lemma allocate_body:
  "(if rem > 0 then
        (let st1 = (if isAfter (Date (currentDay st)) (dueDate t) \<and> rem > 0
                    then st\<lparr>warnings := warnings st @ [(ti, dueDate t, currentDay st)]\<rparr>
                    else st)
         in if freeHoursToday st1 \<le> 0
            then advanceToNextWorkday wds hoursPerDay st1 \<bind> f rem
            else
              (let alloc = min (freeHoursToday st1) rem;
                   st2 = st1\<lparr>schedule := addAllocation (currentDay st1) ti alloc (schedule st1)\<rparr>;
                   rem' = rem - alloc;
                   st3 = st2\<lparr>freeHoursToday := freeHoursToday st2 - alloc\<rparr>
               in if rem' > 0
                  then advanceToNextWorkday wds hoursPerDay st3 \<bind> f rem'
                  else f rem' st3))
      else Some st) =
   (if rem > 0 then
      (case alloc_iter wds hoursPerDay t ti rem st of
         None \<Rightarrow> None
       | Some (rem', st') \<Rightarrow> f rem' st')
    else Some st)"
  by (cases "advanceToNextWorkday wds hoursPerDay st";
      cases "advanceToNextWorkday wds hoursPerDay
               (st\<lparr>warnings := warnings st @ [(ti, dueDate t, currentDay st)]\<rparr>)")
     (auto simp: alloc_iter_def Let_def split: option.splits bind_splits)

lemma allocate_unfold:
  "allocate wds hoursPerDay t ti rem st =
     (if rem > 0 then
        (case alloc_iter wds hoursPerDay t ti rem st of
           None \<Rightarrow> None
         | Some (rem', st') \<Rightarrow> allocate wds hoursPerDay t ti rem' st')
      else Some st)"
  by (subst allocate.simps) (rule allocate_body)

text \<open>The invariant rule of the loop.\<close>

lemma allocate_invariant:
  assumes run: "allocate wds hoursPerDay t ti rem st = Some st'"
    and init: "P wds hoursPerDay t ti rem st"
    and step: "\<And>wds hoursPerDay t ti rem st rem1 st1. P wds hoursPerDay t ti rem st \<Longrightarrow> rem > 0 \<Longrightarrow>
        alloc_iter wds hoursPerDay t ti rem st = Some (rem1, st1) \<Longrightarrow> P wds hoursPerDay t ti rem1 st1"
  shows "\<exists>rem'. rem' \<le> 0 \<and> P wds hoursPerDay t ti rem' st'"
  using run init
proof (induction wds hoursPerDay t ti rem st st' rule: allocate.raw_induct [rotated 1, consumes 1])
  case (1 f wds hoursPerDay t ti rem st y)
  from 1(2) have body:
    "(if rem > 0 then
        (case alloc_iter wds hoursPerDay t ti rem st of
           None \<Rightarrow> None
         | Some (rem', st') \<Rightarrow> f wds hoursPerDay t ti rem' st')
      else Some st) = Some y"
    by (simp only: allocate_body)
  show ?case
  proof (cases "rem > 0")
    case False
    with body 1(3) show ?thesis by (intro exI [of _ rem]) simp
  next
    case True
    with body obtain r1 s1 where it: "alloc_iter wds hoursPerDay t ti rem st = Some (r1, s1)"
      and rec: "f wds hoursPerDay t ti r1 s1 = Some y"
      by (auto split: option.splits)
    from step [OF 1(3) True it] have "P wds hoursPerDay t ti r1 s1" .
    from 1(1) [OF rec this] show ?thesis .
  qed
qed

section \<open>Properties of the schedule\<close>

definition day_hours :: "day_record \<Rightarrow> real" where
  "day_hours r = sum_list (map hours (allocations r))"

definition task_hours :: "day_record list \<Rightarrow> string \<Rightarrow> real" where
  "task_hours sch ti =
     sum_list (map hours (filter (\<lambda>a. alloc_title a = ti) (concat (map allocations sch))))"

definition task_dates :: "day_record list \<Rightarrow> string \<Rightarrow> int list" where
  "task_dates sch ti =
     map date (filter (\<lambda>r. list_ex (\<lambda>a. alloc_title a = ti) (allocations r)) sch)"

lemma addAllocation_new:
  "d \<notin> date ` set sch \<Longrightarrow>
   addAllocation d ti h sch = sch @ [\<lparr>date = d, allocations = [\<lparr>alloc_title = ti, hours = h\<rparr>]\<rparr>]"
  by (induction sch) auto

lemma addAllocation_old:
  "distinct (map date sch) \<Longrightarrow> d \<in> date ` set sch \<Longrightarrow>
   addAllocation d ti h sch =
     map (\<lambda>r. if date r = d
              then r\<lparr>allocations := allocations r @ [\<lparr>alloc_title = ti, hours = h\<rparr>]\<rparr>
              else r) sch"
proof (induction sch)
  case Nil
  then show ?case by simp
next
  case (Cons s ss)
  show ?case
  proof (cases "date s = d")
    case True
    with Cons.prems have "\<forall>r \<in> set ss. date r \<noteq> d" by (auto simp: image_iff)
    then have "map (\<lambda>r. if date r = d
              then r\<lparr>allocations := allocations r @ [\<lparr>alloc_title = ti, hours = h\<rparr>]\<rparr>
              else r) ss = ss"
      by (simp add: map_idI)
    with True show ?thesis by simp
  next
    case False
    with Cons show ?thesis by auto
  qed
qed

lemma task_hours_addAllocation:
  "task_hours (addAllocation d ti h sch) ti' = task_hours sch ti' + (if ti' = ti then h else 0)"
  unfolding task_hours_def by (induction sch) auto

lemma task_dates_Nil [simp]: "task_dates [] ti = []"
  by (simp add: task_dates_def)

lemma task_dates_Cons [simp]:
  "task_dates (r # rs) ti =
     (if list_ex (\<lambda>a. alloc_title a = ti) (allocations r) then date r # task_dates rs ti
      else task_dates rs ti)"
  by (simp add: task_dates_def)

lemma task_dates_addAllocation:
  "set (task_dates (addAllocation d ti h sch) ti') =
     (if ti' = ti then insert d (set (task_dates sch ti')) else set (task_dates sch ti'))"
proof (induction sch)
  case Nil
  show ?case by simp
next
  case (Cons s ss)
  show ?case
  proof (cases "date s = d")
    case True
    then show ?thesis by (cases "ti' = ti") auto
  next
    case False
    show ?thesis
    proof (cases "list_ex (\<lambda>a. alloc_title a = ti') (allocations s)")
      case True
      with False Cons.IH show ?thesis by (cases "ti' = ti") (simp_all add: insert_commute)
    next
      case ex: False
      with False Cons.IH show ?thesis by (cases "ti' = ti") simp_all
    qed
  qed
qed

text \<open>
  The invariant of the walk: the records are in strictly increasing order of date, none
  is later than the current day, each is a workday with at most \<open>hoursPerDay\<close> hours and
  positive allocations, and the free hours are what the record of the current day leaves.
\<close>

definition sched_inv :: "string list \<Rightarrow> real \<Rightarrow> alloc_state \<Rightarrow> bool" where
  "sched_inv wds hoursPerDay st =
     (sorted_wrt (<) (map date (schedule st)) \<and>
      (\<forall>r \<in> set (schedule st).
         date r \<le> currentDay st \<and> WEEKDAY_NAME ! day (date r) \<in> set wds \<and>
         day_hours r \<le> hoursPerDay \<and> (\<forall>a \<in> set (allocations r). 0 < hours a) \<and>
         (date r = currentDay st \<longrightarrow> day_hours r = hoursPerDay - freeHoursToday st)) \<and>
      ((\<forall>r \<in> set (schedule st). date r \<noteq> currentDay st) \<longrightarrow> freeHoursToday st = hoursPerDay) \<and>
      WEEKDAY_NAME ! day (currentDay st) \<in> set wds)"

lemma sched_inv_warnings [simp]:
  "sched_inv wds hoursPerDay (st\<lparr>warnings := w\<rparr>) = sched_inv wds hoursPerDay st"
  by (simp add: sched_inv_def)

lemma sched_inv_finishedAt [simp]:
  "sched_inv wds hoursPerDay (st\<lparr>finishedAt := f\<rparr>) = sched_inv wds hoursPerDay st"
  by (simp add: sched_inv_def)

lemma sched_inv_jump:
  assumes "sched_inv wds hoursPerDay st" and "nextWorkday (Date e) wds = Some n"
    and "currentDay st < e"
  shows "sched_inv wds hoursPerDay (st\<lparr>currentDay := n, freeHoursToday := hoursPerDay\<rparr>)"
proof -
  from nextWorkday_Some [OF assms(2)] have "e \<le> n" "WEEKDAY_NAME ! day n \<in> set wds" by auto
  with assms(1,3) show ?thesis by (fastforce simp: sched_inv_def)
qed

lemma sched_inv_advance:
  assumes "sched_inv wds hoursPerDay st" and "advanceToNextWorkday wds hoursPerDay st = Some st'"
  shows "sched_inv wds hoursPerDay st' \<and> currentDay st < currentDay st' \<and>
     schedule st' = schedule st \<and> freeHoursToday st' = hoursPerDay"
proof -
  from assms(2) obtain n where n: "nextWorkday (Date (currentDay st + 1)) wds = Some n"
    and st': "st' = st\<lparr>currentDay := n, freeHoursToday := hoursPerDay\<rparr>"
    by (auto simp: advanceToNextWorkday_def split: bind_splits)
  from nextWorkday_Some [OF n] have "currentDay st < n" by auto
  with sched_inv_jump [OF assms(1) n] st' show ?thesis by simp
qed

lemma sched_inv_alloc:
  assumes inv: "sched_inv wds hoursPerDay st" and free: "0 < freeHoursToday st"
    and h: "0 < h" "h \<le> freeHoursToday st"
  shows "sched_inv wds hoursPerDay
           (st\<lparr>schedule := addAllocation (currentDay st) ti h (schedule st),
               freeHoursToday := freeHoursToday st - h\<rparr>)"
proof (cases "currentDay st \<in> date ` set (schedule st)")
  case False
  then have new: "addAllocation (currentDay st) ti h (schedule st) =
      schedule st @ [\<lparr>date = currentDay st, allocations = [\<lparr>alloc_title = ti, hours = h\<rparr>]\<rparr>]"
    by (rule addAllocation_new)
  from False have no: "\<forall>r \<in> set (schedule st). date r \<noteq> currentDay st"
    by (auto simp: image_iff)
  with inv have f: "freeHoursToday st = hoursPerDay" by (simp add: sched_inv_def)
  from no inv have lt: "\<forall>r \<in> set (schedule st). date r < currentDay st"
    by (fastforce simp: sched_inv_def)
  from inv have srt: "sorted_wrt (<) (map date (schedule st))"
    and wd: "WEEKDAY_NAME ! day (currentDay st) \<in> set wds"
    and old: "\<forall>r \<in> set (schedule st).
         date r \<le> currentDay st \<and> WEEKDAY_NAME ! day (date r) \<in> set wds \<and>
         day_hours r \<le> hoursPerDay \<and> (\<forall>a \<in> set (allocations r). 0 < hours a)"
    by (simp_all add: sched_inv_def)
  have c1: "sorted_wrt (<) (map date (schedule st) @ [currentDay st])"
    using srt lt by (simp add: sorted_wrt_append)
  have c2: "\<forall>r \<in> set (schedule st).
         date r \<le> currentDay st \<and> WEEKDAY_NAME ! day (date r) \<in> set wds \<and>
         day_hours r \<le> hoursPerDay \<and> (\<forall>a \<in> set (allocations r). 0 < hours a) \<and>
         (date r = currentDay st \<longrightarrow> day_hours r = hoursPerDay - (freeHoursToday st - h))"
    using old no by simp
  show ?thesis
    unfolding sched_inv_def new using c1 c2 wd f h
    by (simp add: day_hours_def)
next
  case True
  from inv have "sorted_wrt (<) (map date (schedule st))" by (simp add: sched_inv_def)
  then have dist: "distinct (map date (schedule st))"
    by (simp add: strict_sorted_iff)
  define g :: "day_record \<Rightarrow> day_record" where "g = (\<lambda>r. if date r = currentDay st
              then r\<lparr>allocations := allocations r @ [\<lparr>alloc_title = ti, hours = h\<rparr>]\<rparr>
              else r)"
  have old: "addAllocation (currentDay st) ti h (schedule st) = map g (schedule st)"
    unfolding g_def by (rule addAllocation_old [OF dist True])
  have gd: "date (g r) = date r" for r by (simp add: g_def)
  have gh: "day_hours (g r) = day_hours r + (if date r = currentDay st then h else 0)" for r
    by (simp add: g_def day_hours_def)
  have ga: "set (allocations (g r)) \<subseteq> insert \<lparr>alloc_title = ti, hours = h\<rparr> (set (allocations r))" for r
    by (auto simp: g_def)
  have dates: "map date (map g (schedule st)) = map date (schedule st)"
    by (simp add: gd)
  have rec: "date (g r) \<le> currentDay st \<and> WEEKDAY_NAME ! day (date (g r)) \<in> set wds \<and>
         day_hours (g r) \<le> hoursPerDay \<and> (\<forall>a \<in> set (allocations (g r)). 0 < hours a) \<and>
         (date (g r) = currentDay st \<longrightarrow> day_hours (g r) = hoursPerDay - (freeHoursToday st - h))"
    if r: "r \<in> set (schedule st)" for r
  proof -
    from inv r have a: "date r \<le> currentDay st" "WEEKDAY_NAME ! day (date r) \<in> set wds"
      "day_hours r \<le> hoursPerDay" "\<forall>a \<in> set (allocations r). 0 < hours a"
      "date r = currentDay st \<longrightarrow> day_hours r = hoursPerDay - freeHoursToday st"
      by (auto simp: sched_inv_def)
    have pos: "\<forall>a \<in> set (allocations (g r)). 0 < hours a"
      using a(4) h(1) ga [of r] by auto
    show ?thesis
      using a h pos by (auto simp: gd gh)
  qed
  from inv have wd: "WEEKDAY_NAME ! day (currentDay st) \<in> set wds" by (simp add: sched_inv_def)
  from True have ex: "\<exists>r \<in> set (schedule st). date r = currentDay st" by auto
  have c3: "(\<forall>r \<in> set (map g (schedule st)). date r \<noteq> currentDay st) \<longrightarrow>
      freeHoursToday st - h = hoursPerDay"
    using ex by (auto simp: gd)
  have c2: "\<forall>r' \<in> set (map g (schedule st)).
         date r' \<le> currentDay st \<and> WEEKDAY_NAME ! day (date r') \<in> set wds \<and>
         day_hours r' \<le> hoursPerDay \<and> (\<forall>a \<in> set (allocations r'). 0 < hours a) \<and>
         (date r' = currentDay st \<longrightarrow> day_hours r' = hoursPerDay - (freeHoursToday st - h))"
    using rec by (simp del: map_map)
  show ?thesis
    unfolding sched_inv_def using c2 c3 wd \<open>sorted_wrt (<) (map date (schedule st))\<close>
    by (simp add: old dates del: map_map set_map)
qed

text \<open>
  The invariant of the loop of one task \<open>ti\<close> that starts in \<open>st0\<close> with \<open>H\<close> hours to
  place: what is placed and what is left add up to \<open>H\<close>, the new allocations are on the
  starting day or later, and the other tasks keep their allocations.
\<close>

definition walk_inv :: "string list \<Rightarrow> real \<Rightarrow> string \<Rightarrow> alloc_state \<Rightarrow> real \<Rightarrow> real
    \<Rightarrow> alloc_state \<Rightarrow> bool" where
  "walk_inv wds hoursPerDay ti st0 H rem st =
     (sched_inv wds hoursPerDay st \<and> 0 \<le> rem \<and>
      task_hours (schedule st) ti + rem = task_hours (schedule st0) ti + H \<and>
      (\<forall>ti'. ti' \<noteq> ti \<longrightarrow>
         task_hours (schedule st) ti' = task_hours (schedule st0) ti' \<and>
         set (task_dates (schedule st) ti') = set (task_dates (schedule st0) ti')) \<and>
      set (task_dates (schedule st) ti) \<subseteq> set (task_dates (schedule st0) ti) \<union> {d. currentDay st0 \<le> d} \<and>
      currentDay st0 \<le> currentDay st \<and> finishedAt st = finishedAt st0 \<and>
      recommendedOrder st = recommendedOrder st0)"

lemma walk_inv_warnings [simp]:
  "walk_inv wds hoursPerDay ti st0 H rem (st\<lparr>warnings := w\<rparr>) =
   walk_inv wds hoursPerDay ti st0 H rem st"
  by (simp add: walk_inv_def)

lemma walk_inv_advance:
  assumes "walk_inv wds hoursPerDay ti st0 H rem st"
    and "advanceToNextWorkday wds hoursPerDay st = Some st'"
  shows "walk_inv wds hoursPerDay ti st0 H rem st'"
proof -
  from assms(1) have inv: "sched_inv wds hoursPerDay st" by (simp add: walk_inv_def)
  from assms(2) have fr: "finishedAt st' = finishedAt st" "recommendedOrder st' = recommendedOrder st"
    by (auto simp: advanceToNextWorkday_def split: bind_splits)
  from sched_inv_advance [OF inv assms(2)] assms(1) fr show ?thesis
    by (simp add: walk_inv_def)
qed

lemma walk_inv_alloc:
  assumes w: "walk_inv wds hoursPerDay ti st0 H rem st" and rem: "0 < rem"
    and free: "0 < freeHoursToday st"
  shows "walk_inv wds hoursPerDay ti st0 H (rem - min (freeHoursToday st) rem)
           (st\<lparr>schedule := addAllocation (currentDay st) ti (min (freeHoursToday st) rem) (schedule st),
               freeHoursToday := freeHoursToday st - min (freeHoursToday st) rem\<rparr>)"
proof -
  let ?a = "min (freeHoursToday st) rem"
  from w have inv: "sched_inv wds hoursPerDay st" by (simp add: walk_inv_def)
  have a: "0 < ?a" "?a \<le> freeHoursToday st" "?a \<le> rem" using rem free by auto
  have s: "sched_inv wds hoursPerDay
           (st\<lparr>schedule := addAllocation (currentDay st) ti ?a (schedule st),
               freeHoursToday := freeHoursToday st - ?a\<rparr>)"
    by (rule sched_inv_alloc [OF inv free a(1,2)])
  from w have d: "set (task_dates (schedule st) ti) \<subseteq> set (task_dates (schedule st0) ti) \<union> {d. currentDay st0 \<le> d}"
    and c: "currentDay st0 \<le> currentDay st"
    by (simp_all add: walk_inv_def)
  have d': "set (task_dates (addAllocation (currentDay st) ti ?a (schedule st)) ti)
      \<subseteq> set (task_dates (schedule st0) ti) \<union> {d. currentDay st0 \<le> d}"
    using d c by (simp add: task_dates_addAllocation)
  show ?thesis
    unfolding walk_inv_def using s w a d' c
    by (simp add: walk_inv_def task_hours_addAllocation task_dates_addAllocation)
qed

lemma walk_inv_step:
  assumes w: "walk_inv wds hoursPerDay ti st0 H rem st" and rem: "0 < rem"
    and it: "alloc_iter wds hoursPerDay t ti rem st = Some (rem1, st1)"
  shows "walk_inv wds hoursPerDay ti st0 H rem1 st1"
proof -
  define sw where "sw = (if isAfter (Date (currentDay st)) (dueDate t) \<and> rem > 0
                 then st\<lparr>warnings := warnings st @ [(ti, dueDate t, currentDay st)]\<rparr>
                 else st)"
  have sw: "walk_inv wds hoursPerDay ti st0 H rem sw"
    "freeHoursToday sw = freeHoursToday st" "currentDay sw = currentDay st"
    "schedule sw = schedule st"
    using w by (simp_all add: sw_def)
  show ?thesis
  proof (cases "freeHoursToday sw \<le> 0")
    case True
    with it have "advanceToNextWorkday wds hoursPerDay sw = Some st1" "rem1 = rem"
      by (auto simp: alloc_iter_def sw_def [symmetric] Let_def)
    with walk_inv_advance [OF sw(1)] show ?thesis by simp
  next
    case False
    define a where "a = min (freeHoursToday sw) rem"
    define s3 where "s3 = sw\<lparr>schedule := addAllocation (currentDay sw) ti a (schedule sw),
               freeHoursToday := freeHoursToday sw - a\<rparr>"
    have w3: "walk_inv wds hoursPerDay ti st0 H (rem - a) s3"
      unfolding s3_def a_def using False by (intro walk_inv_alloc [OF sw(1) rem]) simp
    have e: "alloc_iter wds hoursPerDay t ti rem st =
        (if 0 < rem - a
         then map_option (Pair (rem - a)) (advanceToNextWorkday wds hoursPerDay s3)
         else Some (rem - a, s3))"
      using False unfolding alloc_iter_def sw_def [symmetric] Let_def a_def [symmetric]
      by (simp add: s3_def)
    show ?thesis
    proof (cases "0 < rem - a")
      case True
      with it have "advanceToNextWorkday wds hoursPerDay s3 = Some st1" "rem1 = rem - a"
        unfolding e by auto
      with walk_inv_advance [OF w3] show ?thesis by simp
    next
      case neg: False
      with it have "st1 = s3" "rem1 = rem - a"
        unfolding e by auto
      with w3 show ?thesis by simp
    qed
  qed
qed

lemma allocate_walk:
  assumes run: "allocate wds hoursPerDay t ti H st0 = Some st'"
    and inv: "sched_inv wds hoursPerDay st0" and H: "0 \<le> H"
  shows "walk_inv wds hoursPerDay ti st0 H 0 st'"
proof -
  have init: "walk_inv wds hoursPerDay ti st0 H H st0"
    using inv H by (simp add: walk_inv_def)
  from allocate_invariant [where P = "\<lambda>w h t' ti' r s. walk_inv w h ti' st0 H r s", OF run init]
    walk_inv_step
  obtain rem' where "rem' \<le> 0" "walk_inv wds hoursPerDay ti st0 H rem' st'" by blast
  moreover from this have "rem' = 0" by (simp add: walk_inv_def)
  ultimately show ?thesis by simp
qed

section \<open>Properties of the allocator\<close>

text \<open>\<open>precedes xs a b\<close>: \<open>a\<close> stands in \<open>xs\<close> before the first \<open>b\<close>.\<close>

definition precedes :: "'a list \<Rightarrow> 'a \<Rightarrow> 'a \<Rightarrow> bool" where
  "precedes xs a b = (b \<in> set xs \<and> a \<in> set (takeWhile (\<lambda>x. x \<noteq> b) xs))"

lemma precedes_snoc:
  "c \<notin> set xs \<Longrightarrow> precedes (xs @ [c]) a b = (precedes xs a b \<or> (b = c \<and> a \<in> set xs))"
proof (cases "b \<in> set xs")
  case True
  assume "c \<notin> set xs"
  with True have "b \<noteq> c" by auto
  moreover from True have "takeWhile (\<lambda>x. x \<noteq> b) (xs @ [c]) = takeWhile (\<lambda>x. x \<noteq> b) xs"
    by (intro takeWhile_append1 [of b]) auto
  ultimately show ?thesis using True by (simp add: precedes_def)
next
  case False
  then have "takeWhile (\<lambda>x. x \<noteq> b) (xs @ [c]) = xs @ takeWhile (\<lambda>x. x \<noteq> b) [c]"
    by (intro takeWhile_append2) auto
  with False show ?thesis by (auto simp: precedes_def)
qed

lemma takeWhile_nth:
  "distinct xs \<Longrightarrow> i < length xs \<Longrightarrow> takeWhile (\<lambda>x. x \<noteq> xs ! i) xs = take i xs"
proof (induction xs arbitrary: i)
  case Nil
  then show ?case by simp
next
  case (Cons x xs)
  show ?case
  proof (cases i)
    case 0
    then show ?thesis by simp
  next
    case (Suc j)
    with Cons.prems have "x \<noteq> xs ! j" by auto
    with Suc Cons show ?thesis by simp
  qed
qed

lemma task_hours_Cons:
  "task_hours (r # rs) ti =
     sum_list (map hours (filter (\<lambda>a. alloc_title a = ti) (allocations r))) + task_hours rs ti"
  by (simp add: task_hours_def)

lemma task_dates_empty_hours: "task_dates sch ti = [] \<Longrightarrow> task_hours sch ti = 0"
proof (induction sch)
  case Nil
  then show ?case by (simp add: task_hours_def)
next
  case (Cons r rs)
  from Cons.prems have no: "\<not> list_ex (\<lambda>a. alloc_title a = ti) (allocations r)"
    and rest: "task_dates rs ti = []"
    by (auto split: if_splits)
  from no have "filter (\<lambda>a. alloc_title a = ti) (allocations r) = []"
    by (simp add: list_ex_iff filter_empty_conv)
  with Cons.IH [OF rest] show ?case by (simp add: task_hours_Cons)
qed

lemma task_dates_subset: "set (task_dates sch ti) \<subseteq> date ` set sch"
  by (auto simp: task_dates_def)

lemma lastDayRecord_None: "lastDayRecord sch ti = None \<longleftrightarrow> task_dates sch ti = []"
  by (auto simp: lastDayRecord_def task_dates_def find_None_iff filter_empty_conv)

lemma lastDayRecord_Some:
  assumes "lastDayRecord sch ti = Some r"
  shows "date r \<in> set (task_dates sch ti)"
proof -
  from assms obtain i where "i < length (rev sch)" "r = rev sch ! i"
    and ex: "list_ex (\<lambda>a. alloc_title a = ti) (allocations r)"
    by (auto simp: lastDayRecord_def find_Some_iff)
  then have "r \<in> set (rev sch)" using nth_mem by blast
  with ex show ?thesis by (simp add: task_dates_def)
qed

text \<open>
  The invariant of the loop over \<open>topo\<close>, with \<open>walked\<close> the titles already done: they
  have their hours, the others have none, and a task walked earlier has no allocation on
  a later date than a task walked after it.
\<close>

definition alloc_inv :: "string list \<Rightarrow> real \<Rightarrow> task jsmap \<Rightarrow> string list \<Rightarrow> alloc_state \<Rightarrow> bool" where
  "alloc_inv wds hoursPerDay tm walked st =
     (sched_inv wds hoursPerDay st \<and>
      (\<forall>ti. ti \<notin> set walked \<longrightarrow> task_dates (schedule st) ti = []) \<and>
      (\<forall>ti \<in> set walked. \<forall>t. map_of tm ti = Some t \<longrightarrow>
         task_hours (schedule st) ti = estimatedHours t \<and> task_dates (schedule st) ti \<noteq> []) \<and>
      (\<forall>a b. precedes walked a b \<longrightarrow>
         (\<forall>x \<in> set (task_dates (schedule st) a). \<forall>y \<in> set (task_dates (schedule st) b). x \<le> y)))"

lemma schedule_task_inv:
  assumes inv: "alloc_inv wds hoursPerDay tm walked st" and new: "ti \<notin> set walked"
    and t: "map_of tm ti = Some t" "0 < estimatedHours t"
    and run: "schedule_task cal tm (map (\<lambda>(ti, t). (ti, estimatedHours t)) tm) wds hoursPerDay ti st = Some r"
  shows "\<exists>st'. r = Inr st' \<and> alloc_inv wds hoursPerDay tm (walked @ [ti]) st' \<and>
     recommendedOrder st' = recommendedOrder st"
proof -
  let ?rem = "map (\<lambda>(ti, t). (ti, estimatedHours t)) tm"
  let ?er = "earliest_ready cal (finishedAt st) (dependencies t) 0"
  have remaining: "map_of ?rem ti = Some (estimatedHours t)"
    using t(1) by (simp add: map_of_map)
  from inv have sinv: "sched_inv wds hoursPerDay st" by (simp add: alloc_inv_def)
  from run t(1) remaining obtain st1 st2 where
    j: "(if ?er > currentDay st
         then do { d \<leftarrow> nextWorkday (Date ?er) wds;
                   Some (st\<lparr>currentDay := d, freeHoursToday := hoursPerDay\<rparr>) }
         else Some st) = Some st1"
    and a: "allocate wds hoursPerDay t ti (estimatedHours t) st1 = Some st2"
    and r: "(case lastDayRecord (schedule st2) ti of
               None \<Rightarrow> Some (Inl TypeError)
             | Some rc \<Rightarrow>
                 Some (Inr (st2\<lparr>finishedAt := AList.update ti (date rc) (finishedAt st2)\<rparr>))) = Some r"
    by (auto simp: schedule_task_def Let_def split: bind_splits)
  have s1: "sched_inv wds hoursPerDay st1 \<and> schedule st1 = schedule st \<and>
      currentDay st \<le> currentDay st1 \<and> recommendedOrder st1 = recommendedOrder st"
  proof (cases "?er > currentDay st")
    case True
    with j obtain d where d: "nextWorkday (Date ?er) wds = Some d"
      and st1: "st1 = st\<lparr>currentDay := d, freeHoursToday := hoursPerDay\<rparr>"
      by (auto split: bind_splits)
    from nextWorkday_Some [OF d] True have "currentDay st \<le> d" by auto
    with sched_inv_jump [OF sinv d] True st1 show ?thesis by simp
  next
    case False
    with j sinv show ?thesis by simp
  qed
  from allocate_walk [OF a] s1 t(2)
  have w: "walk_inv wds hoursPerDay ti st1 (estimatedHours t) 0 st2" by simp
  from inv new have none: "task_dates (schedule st) ti = []" by (simp add: alloc_inv_def)
  from w s1 none task_dates_empty_hours [OF none]
  have h: "task_hours (schedule st2) ti = estimatedHours t"
    and ds: "set (task_dates (schedule st2) ti) \<subseteq> {d. currentDay st1 \<le> d}"
    and other: "\<And>ti'. ti' \<noteq> ti \<Longrightarrow> task_hours (schedule st2) ti' = task_hours (schedule st) ti' \<and>
         set (task_dates (schedule st2) ti') = set (task_dates (schedule st) ti')"
    and s2: "sched_inv wds hoursPerDay st2" "recommendedOrder st2 = recommendedOrder st"
    by (simp_all add: walk_inv_def)
  from h t(2) have ne: "task_dates (schedule st2) ti \<noteq> []"
    using task_dates_empty_hours [of "schedule st2" ti] by auto
  then obtain rc where rc: "lastDayRecord (schedule st2) ti = Some rc"
    using lastDayRecord_None [of "schedule st2" ti] by auto
  with r have res: "r = Inr (st2\<lparr>finishedAt := AList.update ti (date rc) (finishedAt st2)\<rparr>)"
    by simp
  let ?st' = "st2\<lparr>finishedAt := AList.update ti (date rc) (finishedAt st2)\<rparr>"
  have old_le: "x \<le> currentDay st" if "x \<in> set (task_dates (schedule st) a)" for x a
    using that task_dates_subset [of "schedule st" a] sinv by (auto simp: sched_inv_def)
  have c2: "\<forall>ti'. ti' \<notin> set (walked @ [ti]) \<longrightarrow> task_dates (schedule ?st') ti' = []"
  proof (intro allI impI)
    fix ti' assume "ti' \<notin> set (walked @ [ti])"
    then have "ti' \<noteq> ti" "ti' \<notin> set walked" by auto
    with other [of ti'] inv show "task_dates (schedule ?st') ti' = []"
      by (simp add: alloc_inv_def)
  qed
  have c3: "\<forall>ti' \<in> set (walked @ [ti]). \<forall>t'. map_of tm ti' = Some t' \<longrightarrow>
         task_hours (schedule ?st') ti' = estimatedHours t' \<and> task_dates (schedule ?st') ti' \<noteq> []"
  proof (intro ballI allI impI)
    fix ti' t' assume m: "ti' \<in> set (walked @ [ti])" and t': "map_of tm ti' = Some t'"
    show "task_hours (schedule ?st') ti' = estimatedHours t' \<and> task_dates (schedule ?st') ti' \<noteq> []"
    proof (cases "ti' = ti")
      case True
      with t' t(1) h ne show ?thesis by simp
    next
      case False
      with m have "ti' \<in> set walked" by simp
      with inv t' have "task_hours (schedule st) ti' = estimatedHours t'"
        "set (task_dates (schedule st) ti') \<noteq> {}"
        by (auto simp: alloc_inv_def)
      with other [OF False] show ?thesis by auto
    qed
  qed
  have c4: "\<forall>a b. precedes (walked @ [ti]) a b \<longrightarrow>
         (\<forall>x \<in> set (task_dates (schedule ?st') a). \<forall>y \<in> set (task_dates (schedule ?st') b). x \<le> y)"
  proof (intro allI impI ballI)
    fix a b x y assume p: "precedes (walked @ [ti]) a b"
      and x: "x \<in> set (task_dates (schedule ?st') a)" and y: "y \<in> set (task_dates (schedule ?st') b)"
    from p new consider "precedes walked a b" | "b = ti" "a \<in> set walked"
      by (auto simp: precedes_snoc)
    then show "x \<le> y"
    proof cases
      case 1
      then have "a \<in> set walked" "b \<in> set walked"
        by (auto simp: precedes_def dest: set_takeWhileD)
      with new have "a \<noteq> ti" "b \<noteq> ti" by auto
      with other [of a] other [of b] x y
      have "x \<in> set (task_dates (schedule st) a)" "y \<in> set (task_dates (schedule st) b)" by auto
      with inv 1 show ?thesis unfolding alloc_inv_def by blast
    next
      case 2
      with new have "a \<noteq> ti" by auto
      with other [of a] x have "x \<in> set (task_dates (schedule st) a)" by auto
      from old_le [OF this] s1 have "x \<le> currentDay st1" by simp
      moreover from 2 y ds have "currentDay st1 \<le> y" by auto
      ultimately show ?thesis by simp
    qed
  qed
  have "alloc_inv wds hoursPerDay tm (walked @ [ti]) ?st'"
    unfolding alloc_inv_def using s2(1) c2 c3 c4 by simp
  with res s2(2) show ?thesis by simp
qed

lemma allocate_all_inv:
  assumes "allocate_all cal tm (map (\<lambda>(ti, t). (ti, estimatedHours t)) tm) wds hoursPerDay todo st = Some r"
    and "alloc_inv wds hoursPerDay tm walked st" and "distinct (walked @ todo)"
    and "\<forall>ti \<in> set todo. \<exists>t. map_of tm ti = Some t \<and> 0 < estimatedHours t"
  shows "\<exists>st'. r = Inr st' \<and> alloc_inv wds hoursPerDay tm (walked @ todo) st' \<and>
     recommendedOrder st' = recommendedOrder st"
  using assms
proof (induction todo arbitrary: walked st)
  case Nil
  then show ?case by auto
next
  case (Cons ti todo)
  from Cons.prems(4) obtain t where t: "map_of tm ti = Some t" "0 < estimatedHours t" by auto
  from Cons.prems(3) have new: "ti \<notin> set walked" by simp
  from Cons.prems(1) obtain r1 where
    r1: "schedule_task cal tm (map (\<lambda>(ti, t). (ti, estimatedHours t)) tm) wds hoursPerDay ti st = Some r1"
    by (auto split: option.splits)
  from schedule_task_inv [OF Cons.prems(2) new t r1] obtain st1 where
    st1: "r1 = Inr st1" "alloc_inv wds hoursPerDay tm (walked @ [ti]) st1"
      "recommendedOrder st1 = recommendedOrder st" by blast
  from Cons.prems(1) r1 st1(1) have rest:
    "allocate_all cal tm (map (\<lambda>(ti, t). (ti, estimatedHours t)) tm) wds hoursPerDay todo st1 = Some r"
    by simp
  from Cons.IH [OF rest st1(2)] Cons.prems(3,4) st1(3) show ?case by simp
qed

section \<open>Properties of the sequencer\<close>

text \<open>What the registry and the validation of the dependencies establish.\<close>

definition valid_map :: "task jsmap \<Rightarrow> bool" where
  "valid_map tm =
     (distinct (map fst tm) \<and>
      (\<forall>(ti, t) \<in> set tm. 0 < estimatedHours t \<and>
         (\<forall>d \<in> set (dependencies t). d \<in> fst ` set tm \<and> d \<noteq> ti)))"

lemma edges_iff:
  "(d, ti) \<in> set (edges tm) \<longleftrightarrow> (\<exists>t. (ti, t) \<in> set tm \<and> d \<in> set (dependencies t))"
  by (auto simp: edges_def)

lemma sequence_start:
  assumes v: "valid_map tm"
  shows "\<exists>indeg adj av.
     build_graph tm (init_graph (map fst tm) ([], [])) = Inr (indeg, adj) \<and>
     sort_cmp tm (map fst (filter (\<lambda>(ti, deg). deg = Some 0) indeg)) = Inr av \<and>
     graph_ok tm adj \<and> kahn_inv tm [] av indeg"
proof -
  let ?ks = "map fst tm" and ?E = "edges tm"
  from v have dist: "distinct ?ks" by (simp add: valid_map_def)
  have deps: "\<forall>(ti, t) \<in> set tm. ti \<in> set ?ks \<and> set (dependencies t) \<subseteq> set ?ks"
  proof (intro ballI, clarify, intro conjI subsetI)
    fix ti t assume m: "(ti, t) \<in> set tm"
    then show "ti \<in> set ?ks" by force
    fix d assume "d \<in> set (dependencies t)"
    with v m have "d \<in> fst ` set tm" unfolding valid_map_def by blast
    then show "d \<in> set ?ks" by simp
  qed
  from build_graph_inv [OF graph_inv_init [OF dist] deps]
  obtain indeg adj where b: "build_graph tm (init_graph ?ks ([], [])) = Inr (indeg, adj)"
    and g: "graph_inv ?ks ?E (indeg, adj)"
    by (cases "build_graph tm (init_graph ?ks ([], []))") auto
  have E: "\<forall>e \<in> set ?E. fst e \<in> fst ` set tm \<and> snd e \<in> fst ` set tm \<and> fst e \<noteq> snd e"
  proof
    fix e assume "e \<in> set ?E"
    then obtain t where "(snd e, t) \<in> set tm" "fst e \<in> set (dependencies t)"
      using edges_iff [of "fst e" "snd e" tm] by auto
    moreover from this v have "fst e \<in> fst ` set tm \<and> fst e \<noteq> snd e"
      unfolding valid_map_def by blast
    ultimately show "fst e \<in> fst ` set tm \<and> snd e \<in> fst ` set tm \<and> fst e \<noteq> snd e"
      by force
  qed
  from g have adj: "\<forall>k \<in> fst ` set tm. map_of adj k = Some (map snd (filter (\<lambda>e. fst e = k) ?E))"
    and ind: "\<forall>k \<in> fst ` set tm. get_num indeg k = Some (int (length (filter (\<lambda>e. snd e = k) ?E)))"
    and ik: "map fst indeg = ?ks"
    by (auto simp: graph_inv_def)
  have ok: "graph_ok tm adj" unfolding graph_ok_def using dist E adj by blast
  let ?xs = "map fst (filter (\<lambda>(ti, deg). deg = Some 0) indeg)"
  from ik dist have di: "distinct (map fst indeg)" by simp
  have xs: "set ?xs = {k \<in> fst ` set tm. get_num indeg k = Some 0}"
  proof -
    have "k \<in> set ?xs \<longleftrightarrow> (k, Some 0) \<in> set indeg" for k
      by (auto simp: image_iff)
    then have "set ?xs = {k. map_of indeg k = Some (Some 0)}"
      using di by auto
    also have "\<dots> = {k \<in> fst ` set tm. get_num indeg k = Some 0}"
    proof -
      have "k \<in> fst ` set tm" if "map_of indeg k = Some (Some 0)" for k
      proof -
        from map_of_SomeD [OF that] have "k \<in> set (map fst indeg)" by force
        with ik show ?thesis by simp
      qed
      then show ?thesis by (auto simp: get_num_def split: option.splits)
    qed
    finally show ?thesis .
  qed
  have dx: "distinct ?xs" using di by (rule distinct_map_filter)
  from xs obtain av where s: "sort_cmp tm ?xs = Inr av"
    by (auto simp: sort_cmp_Inr)
  have av: "set av = set ?xs" "distinct av"
    using sort_cmp_set [OF s] sort_cmp_distinct [OF s] dx by auto
  have p0: "pending ?E [] k = length (filter (\<lambda>e. snd e = k) ?E)" for k
    by (simp add: pending_def)
  have inv0: "kahn_inv tm [] av indeg"
    unfolding kahn_inv_def using av xs ind by (auto simp: p0)
  from b s ok inv0 show ?thesis by blast
qed

lemma sequence_kahn:
  assumes v: "valid_map tm"
  shows "\<exists>topo indeg. kahn_inv tm topo [] indeg \<and>
     sequence tm = (if length topo \<noteq> length tm then Inl CycleDetected else Inr topo)"
proof -
  from sequence_start [OF v] obtain indeg adj av where
    b: "build_graph tm (init_graph (map fst tm) ([], [])) = Inr (indeg, adj)"
    and s: "sort_cmp tm (map fst (filter (\<lambda>(ti, deg). deg = Some 0) indeg)) = Inr av"
    and ok: "graph_ok tm adj" and inv0: "kahn_inv tm [] av indeg" by blast
  from kahn_total [OF ok inv0] obtain topo indeg' where
    k: "kahn tm adj indeg av [] = Inr topo" and inv: "kahn_inv tm topo [] indeg'" by blast
  have "sequence tm = (if length topo \<noteq> length tm then Inl CycleDetected else Inr topo)"
    by (simp add: sequence_def b s k)
  with inv show ?thesis by blast
qed

text \<open>When every task was emitted, the order lists each title once, dependencies first.\<close>

lemma sequence_Inr:
  assumes v: "valid_map tm" and s: "sequence tm = Inr topo"
  shows "distinct topo \<and> set topo = fst ` set tm \<and> length topo = length tm \<and>
     (\<forall>e \<in> set (edges tm). precedes topo (fst e) (snd e))"
proof -
  from sequence_kahn [OF v] s obtain indeg where inv: "kahn_inv tm topo [] indeg"
    and len: "length topo = length tm"
    by (auto split: if_splits)
  from inv have d: "distinct topo" and sub: "set topo \<subseteq> fst ` set tm"
    and ord: "\<forall>i < length topo. \<forall>e \<in> set (edges tm). snd e = topo ! i \<longrightarrow> fst e \<in> set (take i topo)"
    by (auto simp: kahn_inv_def)
  from v have "distinct (map fst tm)" by (simp add: valid_map_def)
  from distinct_card [OF this] have "card (fst ` set tm) = length tm" by simp
  with d len have "card (set topo) = card (fst ` set tm)" by (simp add: distinct_card)
  with sub have eq: "set topo = fst ` set tm" by (simp add: card_subset_eq)
  have "precedes topo (fst e) (snd e)" if e: "e \<in> set (edges tm)" for e
  proof -
    from e obtain t where "(snd e, t) \<in> set tm"
      using edges_iff [of "fst e" "snd e" tm] by auto
    with eq have "snd e \<in> set topo" by force
    then obtain i where i: "i < length topo" "topo ! i = snd e" by (auto simp: in_set_conv_nth)
    with ord e have "fst e \<in> set (take i topo)" by auto
    with takeWhile_nth [OF d i(1)] i \<open>snd e \<in> set topo\<close> show ?thesis
      by (simp add: precedes_def)
  qed
  with d eq len show ?thesis by blast
qed

section \<open>The entry point, step by step\<close>

definition hoursPerDay_of :: "input \<Rightarrow> real" where
  "hoursPerDay_of inp = (case workHoursPerDay inp of Some h \<Rightarrow> h | None \<Rightarrow> 8)"

definition workDays_of :: "input \<Rightarrow> string list" where
  "workDays_of inp =
     (case workDays inp of Some w \<Rightarrow> w | None \<Rightarrow> [''Mon'', ''Tue'', ''Wed'', ''Thu'', ''Fri''])"

definition title_of :: "raw_task \<Rightarrow> string" where
  "title_of t = the (raw_title t)"

definition hours_of :: "raw_task \<Rightarrow> real" where
  "hours_of t = the (raw_estimatedHours t)"

definition deps_of :: "raw_task \<Rightarrow> string list" where
  "deps_of t = (case raw_dependencies t of Some ds \<Rightarrow> ds | None \<Rightarrow> [])"

lemma normalize_fst [simp]: "fst (normalize_task cal t) = title_of t"
  by (simp add: normalize_task_def title_of_def)

lemma normalize_snd [simp]:
  "estimatedHours (snd (normalize_task cal t)) = hours_of t"
  "dependencies (snd (normalize_task cal t)) = deps_of t"
  "title (snd (normalize_task cal t)) = title_of t"
  "dueDate (snd (normalize_task cal t)) = parse cal False (raw_dueDate t)"
  by (simp_all add: normalize_task_def hours_of_def deps_of_def title_of_def)

lemma registered_valid:
  assumes r: "register cal ts [] = Inr tm" and d: "validate_deps tm tm = None"
  shows "valid_map tm"
proof -
  from r have tm: "tm = map (normalize_task cal) ts" and wf: "list_all (well_formed cal) ts"
    and dist: "distinct (map (\<lambda>t. the (raw_title t)) ts)"
    by (simp_all add: register_Inr)
  have "map fst tm = map (\<lambda>t. the (raw_title t)) ts"
    by (simp add: tm title_of_def comp_def)
  with dist have c1: "distinct (map fst tm)" by simp
  have c2: "0 < estimatedHours t \<and> (\<forall>d \<in> set (dependencies t). d \<in> fst ` set tm \<and> d \<noteq> ti)"
    if m: "(ti, t) \<in> set tm" for ti t
  proof -
    from m tm obtain rt where rt: "rt \<in> set ts" "(ti, t) = normalize_task cal rt" by auto
    with wf have "well_formed cal rt" by (simp add: list_all_iff)
    then have "0 < hours_of rt"
      by (auto simp: well_formed_def hours_of_def split: option.splits)
    moreover from rt have "estimatedHours t = hours_of rt"
      by (metis normalize_snd(1) snd_conv)
    moreover from d m have "\<forall>d \<in> set (dependencies t). has tm d \<and> d \<noteq> ti"
      unfolding validate_deps_None by blast
    ultimately show ?thesis
      by (auto simp: has_def map_of_eq_None_iff)
  qed
  show ?thesis unfolding valid_map_def using c1 c2 by blast
qed

text \<open>The part of \<open>scheduleTasks\<close> after the sequencer.\<close>

definition run_allocator :: "calendar \<Rightarrow> input \<Rightarrow> task jsmap \<Rightarrow> string list
    \<Rightarrow> (error + result) option" where
  "run_allocator cal inp tm topo =
     do {
       let today = (case startDate inp of
                      Some s \<Rightarrow> if s \<noteq> [] then parse cal False s else Date (now cal)
                    | None \<Rightarrow> Date (now cal));
       d \<leftarrow> nextWorkday today (workDays_of inp);
       r \<leftarrow> allocate_all cal tm (map (\<lambda>(ti, t). (ti, estimatedHours t)) tm)
              (workDays_of inp) (hoursPerDay_of inp) topo
              \<lparr>recommendedOrder = topo, schedule = [], warnings = [],
               currentDay = d, freeHoursToday = hoursPerDay_of inp, finishedAt = []\<rparr>;
       Some (map_sum id result.truncate r)
     }"

lemma scheduleTasks_unfold:
  "scheduleTasks cal inp =
     (case tasks inp of
        None \<Rightarrow> Some (Inl TasksNotArray)
      | Some ts \<Rightarrow>
          if ts = [] then Some (Inl TasksNotArray)
          else (case register cal ts [] of
                  Inl e \<Rightarrow> Some (Inl e)
                | Inr tm \<Rightarrow>
                    (case validate_deps tm tm of
                       Some e \<Rightarrow> Some (Inl e)
                     | None \<Rightarrow>
                         (case sequence tm of
                            Inl e \<Rightarrow> Some (Inl e)
                          | Inr topo \<Rightarrow> run_allocator cal inp tm topo))))"
  unfolding scheduleTasks_def run_allocator_def workDays_of_def hoursPerDay_of_def Let_def
  by (simp split: option.split list.split sum.split del: register.simps)

lemma run_allocator_Some:
  assumes v: "valid_map tm" and s: "sequence tm = Inr topo"
    and run: "run_allocator cal inp tm topo = Some r"
  shows "\<exists>st. r = Inr (result.truncate st) \<and> recommendedOrder st = topo \<and>
     alloc_inv (workDays_of inp) (hoursPerDay_of inp) tm topo st"
proof -
  let ?wds = "workDays_of inp" and ?h = "hoursPerDay_of inp"
  let ?today = "case startDate inp of
                  Some s \<Rightarrow> if s \<noteq> [] then parse cal False s else Date (now cal)
                | None \<Rightarrow> Date (now cal)"
  let ?st0 = "\<lambda>d. \<lparr>recommendedOrder = topo, schedule = [], warnings = [],
                   currentDay = d, freeHoursToday = ?h, finishedAt = []\<rparr>"
  from run obtain d r' where d: "nextWorkday ?today ?wds = Some d"
    and r: "allocate_all cal tm (map (\<lambda>(ti, t). (ti, estimatedHours t)) tm) ?wds ?h topo (?st0 d) = Some r'"
    and out: "r = map_sum id result.truncate r'"
    by (auto simp: run_allocator_def Let_def split: bind_splits)
  from sequence_Inr [OF v s] have dt: "distinct topo" and st: "set topo = fst ` set tm" by auto
  from nextWorkday_Some [OF d] have wd: "WEEKDAY_NAME ! day d \<in> set ?wds" by simp
  have inv0: "alloc_inv ?wds ?h tm [] (?st0 d)"
    using wd by (simp add: alloc_inv_def sched_inv_def precedes_def)
  have ex: "\<forall>ti \<in> set topo. \<exists>t. map_of tm ti = Some t \<and> 0 < estimatedHours t"
  proof
    fix ti assume "ti \<in> set topo"
    with st obtain t where m: "(ti, t) \<in> set tm" by auto
    with v have "map_of tm ti = Some t" "0 < estimatedHours t"
      unfolding valid_map_def by auto
    then show "\<exists>t. map_of tm ti = Some t \<and> 0 < estimatedHours t" by blast
  qed
  from allocate_all_inv [OF r inv0 _ ex] dt obtain st' where
    st': "r' = Inr st'" "alloc_inv ?wds ?h tm topo st'" "recommendedOrder st' = topo"
    by auto
  with out show ?thesis by auto
qed

lemma scheduleTasks_Inr:
  assumes "scheduleTasks cal inp = Some (Inr out)"
  shows "\<exists>ts tm st. tasks inp = Some ts \<and> ts \<noteq> [] \<and> register cal ts [] = Inr tm \<and>
     valid_map tm \<and> sequence tm = Inr (recommendedOrder out) \<and>
     alloc_inv (workDays_of inp) (hoursPerDay_of inp) tm (recommendedOrder out) st \<and>
     schedule out = schedule st"
proof -
  from assms obtain ts tm topo where ts: "tasks inp = Some ts" "ts \<noteq> []"
    and tm: "register cal ts [] = Inr tm" and vd: "validate_deps tm tm = None"
    and topo: "sequence tm = Inr topo" and run: "run_allocator cal inp tm topo = Some (Inr out)"
    unfolding scheduleTasks_unfold
    by (auto split: option.splits if_splits sum.splits)
  have v: "valid_map tm" by (rule registered_valid [OF tm vd])
  from run_allocator_Some [OF v topo run] obtain st where
    st: "out = result.truncate st" "recommendedOrder st = topo"
      "alloc_inv (workDays_of inp) (hoursPerDay_of inp) tm topo st" by auto
  from st(1,2) have "recommendedOrder out = topo" "schedule out = schedule st"
    by (simp_all add: result.truncate_def alloc_state.defs)
  with ts tm v topo st(3) show ?thesis by auto
qed

section \<open>Worked examples\<close>

text \<open>
  Three tasks: \<open>B\<close> depends on \<open>A\<close>, and \<open>C\<close> is due first. Eight hours a day, Monday
  to Friday, from Monday 2024-01-08.
\<close>

definition ex_tasks :: "raw_task list" where
  "ex_tasks =
     [\<lparr>raw_title = Some ''A'', raw_estimatedHours = Some 10, raw_dueDate = ''2024-01-10'',
       raw_dependencies = Some []\<rparr>,
      \<lparr>raw_title = Some ''B'', raw_estimatedHours = Some 4, raw_dueDate = ''2024-01-12'',
       raw_dependencies = Some [''A'']\<rparr>,
      \<lparr>raw_title = Some ''C'', raw_estimatedHours = Some 3, raw_dueDate = ''2024-01-09'',
       raw_dependencies = None\<rparr>]"

definition ex_input :: input where
  "ex_input = \<lparr>tasks = Some ex_tasks, workHoursPerDay = Some 8,
     workDays = Some [''Mon'', ''Tue'', ''Wed'', ''Thu'', ''Fri''],
     startDate = Some ''2024-01-08''\<rparr>"

definition ex_output :: result where
  "ex_output =
     \<lparr>recommendedOrder = [''C'', ''A'', ''B''],
      schedule =
        [\<lparr>date = 19730, allocations = [\<lparr>alloc_title = ''C'', hours = 3\<rparr>,
                                          \<lparr>alloc_title = ''A'', hours = 5\<rparr>]\<rparr>,
         \<lparr>date = 19731, allocations = [\<lparr>alloc_title = ''A'', hours = 5\<rparr>,
                                          \<lparr>alloc_title = ''B'', hours = 3\<rparr>]\<rparr>,
         \<lparr>date = 19732, allocations = [\<lparr>alloc_title = ''B'', hours = 1\<rparr>]\<rparr>],
      warnings = []\<rparr>"

lemma ex_run: "scheduleTasks (iso_calendar 0) ex_input = Some (Inr ex_output)"
  by code_simp

lemma ex_tasks_input: "tasks ex_input = Some ex_tasks"
  by (simp add: ex_input_def)

section \<open>The claims\<close>

lemma registered_tasks:
  assumes r: "register cal ts [] = Inr tm" and t: "t \<in> set ts"
  shows "map_of tm (title_of t) = Some (snd (normalize_task cal t))"
    and "fst ` set tm = title_of ` set ts" and "distinct (map title_of ts)"
proof -
  from r have tm: "tm = map (normalize_task cal) ts"
    and dist: "distinct (map (\<lambda>t. the (raw_title t)) ts)"
    by (simp_all add: register_Inr)
  have k: "map fst tm = map title_of ts" by (simp add: tm)
  from dist show d: "distinct (map title_of ts)" by (simp add: title_of_def [abs_def])
  from k d have "distinct (map fst tm)" by simp
  moreover have "normalize_task cal t = (title_of t, snd (normalize_task cal t))"
    by (simp add: prod_eq_iff)
  with t tm have "(title_of t, snd (normalize_task cal t)) \<in> set tm"
    by (metis image_eqI list.set_map)
  ultimately show "map_of tm (title_of t) = Some (snd (normalize_task cal t))" by simp
  from k show "fst ` set tm = title_of ` set ts"
    by (metis list.set_map)
qed

text \<open>
  C1. When \<open>scheduleTasks\<close> returns, \<open>recommendedOrder\<close> is a permutation of the titles
  of the tasks, and every dependency of a task stands before the task.
\<close>

theorem order_topological:
  assumes "scheduleTasks cal inp = Some (Inr out)" and "tasks inp = Some ts"
  shows "mset (recommendedOrder out) = mset (map title_of ts) \<and>
     (\<forall>t \<in> set ts. \<forall>dep \<in> set (deps_of t). precedes (recommendedOrder out) dep (title_of t))"
proof -
  from scheduleTasks_Inr [OF assms(1)] assms(2) obtain tm st where
    tm: "register cal ts [] = Inr tm" and v: "valid_map tm"
    and s: "sequence tm = Inr (recommendedOrder out)" by auto
  from sequence_Inr [OF v s] have d: "distinct (recommendedOrder out)"
    and eq: "set (recommendedOrder out) = fst ` set tm"
    and ord: "\<forall>e \<in> set (edges tm). precedes (recommendedOrder out) (fst e) (snd e)" by auto
  have "ts \<noteq> []" using scheduleTasks_Inr [OF assms(1)] assms(2) by auto
  then obtain t0 where "t0 \<in> set ts" by (cases ts) auto
  from registered_tasks(2,3) [OF tm this] eq
  have se: "set (recommendedOrder out) = set (map title_of ts)"
    and dt: "distinct (map title_of ts)" by simp_all
  have p: "mset (recommendedOrder out) = mset (map title_of ts)"
    using set_eq_iff_mset_eq_distinct [OF d dt] se by blast
  have "precedes (recommendedOrder out) dep (title_of t)"
    if t: "t \<in> set ts" and dep: "dep \<in> set (deps_of t)" for t dep
  proof -
    from map_of_SomeD [OF registered_tasks(1) [OF tm t]]
    have "(title_of t, snd (normalize_task cal t)) \<in> set tm" .
    with dep have "(dep, title_of t) \<in> set (edges tm)"
      unfolding edges_iff by (intro exI [of _ "snd (normalize_task cal t)"]) simp
    with ord show ?thesis by force
  qed
  with p show ?thesis by blast
qed

theorem order_topological_witness:
  "scheduleTasks (iso_calendar 0) ex_input = Some (Inr ex_output) \<and>
   mset (recommendedOrder ex_output) = mset (map title_of ex_tasks) \<and>
   list_all (\<lambda>t. list_all (\<lambda>dep. precedes (recommendedOrder ex_output) dep (title_of t))
     (deps_of t)) ex_tasks"
  using order_topological [OF ex_run ex_tasks_input] ex_run
  by (simp add: list_all_iff)

lemma registered_title_in_order:
  assumes r: "register cal ts [] = Inr tm" and v: "valid_map tm"
    and s: "sequence tm = Inr topo" and t: "t \<in> set ts"
  shows "title_of t \<in> set topo"
proof -
  from sequence_Inr [OF v s] have "set topo = fst ` set tm" by simp
  with registered_tasks(2) [OF r t] t show ?thesis by simp
qed







text \<open>
  C7. When \<open>scheduleTasks\<close> returns, a dependency of a task has a last day record, its
  finish date, and no allocation of the task is on a date before it. The task may start
  on the finish date itself: in the example \<open>A\<close> finishes and \<open>B\<close> starts on the same day.
\<close>

theorem dependency_finishes_first:
  assumes "scheduleTasks cal inp = Some (Inr out)" and "tasks inp = Some ts"
    and "t \<in> set ts" and "dep \<in> set (deps_of t)"
  shows "\<exists>r. lastDayRecord (schedule out) dep = Some r \<and>
     (\<forall>x \<in> set (task_dates (schedule out) (title_of t)). date r \<le> x)"
proof -
  from scheduleTasks_Inr [OF assms(1)] assms(2) obtain tm st where
    tm: "register cal ts [] = Inr tm" and v: "valid_map tm"
    and s: "sequence tm = Inr (recommendedOrder out)"
    and inv: "alloc_inv (workDays_of inp) (hoursPerDay_of inp) tm (recommendedOrder out) st"
    and sch: "schedule out = schedule st" by auto
  let ?topo = "recommendedOrder out"
  from map_of_SomeD [OF registered_tasks(1) [OF tm assms(3)]]
  have m: "(title_of t, snd (normalize_task cal t)) \<in> set tm" .
  with assms(4) have e: "(dep, title_of t) \<in> set (edges tm)"
    unfolding edges_iff by (intro exI [of _ "snd (normalize_task cal t)"]) simp
  with sequence_Inr [OF v s] have p: "precedes ?topo dep (title_of t)" by force
  then have "dep \<in> set ?topo" by (auto simp: precedes_def dest: set_takeWhileD)
  moreover from this sequence_Inr [OF v s] obtain td where "(dep, td) \<in> set tm" by auto
  with v have "map_of tm dep = Some td" by (simp add: valid_map_def)
  ultimately have "task_dates (schedule st) dep \<noteq> []"
    using inv unfolding alloc_inv_def by blast
  then obtain r where r: "lastDayRecord (schedule st) dep = Some r"
    using lastDayRecord_None [of "schedule st" dep] by auto
  from lastDayRecord_Some [OF r] p inv
  have "\<forall>x \<in> set (task_dates (schedule st) (title_of t)). date r \<le> x"
    unfolding alloc_inv_def by blast
  with r sch show ?thesis by simp
qed

theorem dependency_finishes_first_witness:
  "scheduleTasks (iso_calendar 0) ex_input = Some (Inr ex_output) \<and>
   (\<exists>r. lastDayRecord (schedule ex_output) ''A'' = Some r \<and> date r = 19731 \<and>
      list_all (\<lambda>x. date r \<le> x) (task_dates (schedule ex_output) ''B'')) \<and>
   task_dates (schedule ex_output) ''B'' = [19731, 19732]"
proof -
  let ?b = "\<lparr>raw_title = Some ''B'', raw_estimatedHours = Some 4, raw_dueDate = ''2024-01-12'',
       raw_dependencies = Some [''A'']\<rparr>"
  have b: "?b \<in> set ex_tasks" by (simp add: ex_tasks_def)
  have a: "''A'' \<in> set (deps_of ?b)" by (simp add: deps_of_def)
  have l: "date (the (lastDayRecord (schedule ex_output) ''A'')) = 19731"
    by (simp add: ex_output_def lastDayRecord_def)
  have d: "task_dates (schedule ex_output) ''B'' = [19731, 19732]"
    by (simp add: ex_output_def)
  from dependency_finishes_first [OF ex_run ex_tasks_input b a] l
  have "\<exists>r. lastDayRecord (schedule ex_output) ''A'' = Some r \<and> date r = 19731 \<and>
      list_all (\<lambda>x. date r \<le> x) (task_dates (schedule ex_output) ''B'')"
    by (auto simp: list_all_iff title_of_def)
  with ex_run d show ?thesis by simp
qed

text \<open>
  C8. When \<open>scheduleTasks\<close> returns, the weekday of every date of the schedule is one of
  the configured \<open>workDays\<close>.
\<close>

theorem workdays_only:
  assumes "scheduleTasks cal inp = Some (Inr out)" and "r \<in> set (schedule out)"
  shows "WEEKDAY_NAME ! day (date r) \<in> set (workDays_of inp)"
proof -
  from scheduleTasks_Inr [OF assms(1)] obtain tm st where
    inv: "alloc_inv (workDays_of inp) (hoursPerDay_of inp) tm (recommendedOrder out) st"
    and sch: "schedule out = schedule st" by auto
  from inv have "sched_inv (workDays_of inp) (hoursPerDay_of inp) st"
    by (simp add: alloc_inv_def)
  with assms(2) sch show ?thesis by (simp add: sched_inv_def)
qed

theorem workdays_only_witness:
  "scheduleTasks (iso_calendar 0) ex_input = Some (Inr ex_output) \<and>
   list_all (\<lambda>r. WEEKDAY_NAME ! day (date r) \<in> set (workDays_of ex_input)) (schedule ex_output)"
  using workdays_only [OF ex_run] ex_run
  by (simp add: list_all_iff)

text \<open>
  C10. When \<open>scheduleTasks\<close> returns, the day records are in strictly increasing order
  of date (so no date comes twice), every allocation has more than zero hours, and every
  task has an allocation.
\<close>

theorem schedule_shape:
  assumes "scheduleTasks cal inp = Some (Inr out)" and "tasks inp = Some ts"
  shows "sorted_wrt (<) (map date (schedule out)) \<and>
     (\<forall>r \<in> set (schedule out). \<forall>a \<in> set (allocations r). 0 < hours a) \<and>
     (\<forall>t \<in> set ts. \<exists>r \<in> set (schedule out). \<exists>a \<in> set (allocations r). alloc_title a = title_of t)"
proof -
  from scheduleTasks_Inr [OF assms(1)] assms(2) obtain tm st where
    tm: "register cal ts [] = Inr tm" and v: "valid_map tm"
    and s: "sequence tm = Inr (recommendedOrder out)"
    and inv: "alloc_inv (workDays_of inp) (hoursPerDay_of inp) tm (recommendedOrder out) st"
    and sch: "schedule out = schedule st" by auto
  from inv have si: "sched_inv (workDays_of inp) (hoursPerDay_of inp) st"
    by (simp add: alloc_inv_def)
  from si sch have c1: "sorted_wrt (<) (map date (schedule out))" by (simp add: sched_inv_def)
  from si sch have c2: "\<forall>r \<in> set (schedule out). \<forall>a \<in> set (allocations r). 0 < hours a"
    by (simp add: sched_inv_def)
  have c3: "\<exists>r \<in> set (schedule out). \<exists>a \<in> set (allocations r). alloc_title a = title_of t"
    if t: "t \<in> set ts" for t
  proof -
    from registered_title_in_order [OF tm v s t] registered_tasks(1) [OF tm t] inv
    have "task_dates (schedule st) (title_of t) \<noteq> []"
      unfolding alloc_inv_def by blast
    then show ?thesis
      unfolding sch task_dates_def by (auto simp: filter_empty_conv list_ex_iff)
  qed
  from c1 c2 c3 show ?thesis by blast
qed

theorem schedule_shape_witness:
  "scheduleTasks (iso_calendar 0) ex_input = Some (Inr ex_output) \<and>
   sorted_wrt (<) (map date (schedule ex_output)) \<and>
   list_all (\<lambda>r. list_all (\<lambda>a. 0 < hours a) (allocations r)) (schedule ex_output) \<and>
   list_all (\<lambda>t. list_ex (\<lambda>r. list_ex (\<lambda>a. alloc_title a = title_of t) (allocations r))
     (schedule ex_output)) ex_tasks"
  using schedule_shape [OF ex_run ex_tasks_input] ex_run
  by (simp add: list_all_iff list_ex_iff)

section \<open>Cycles\<close>

lemma kahn_stuck_cycle:
  assumes inv: "kahn_inv tm topo [] indeg"
    and E: "\<forall>e \<in> set (edges tm). fst e \<in> fst ` set tm"
    and len: "set topo \<noteq> fst ` set tm"
  shows "\<exists>x. (x, x) \<in> (set (edges tm))\<^sup>+"
proof (rule ccontr)
  assume "\<not> ?thesis"
  then have "acyclic (set (edges tm))" by (simp add: acyclic_def)
  then have wf: "wf (set (edges tm))" by (simp add: finite_acyclic_wf)
  let ?S = "fst ` set tm - set topo"
  from inv have sub: "set topo \<subseteq> fst ` set tm"
    and rdy: "\<forall>t \<in> fst ` set tm. (t \<in> set (topo @ [])) = (pending (edges tm) topo t = 0)"
    by (auto simp: kahn_inv_def)
  from sub len obtain s where s: "s \<in> ?S" by auto
  from wfE_min [OF wf s] obtain z where z: "z \<in> ?S"
    and zmin: "\<And>y. (y, z) \<in> set (edges tm) \<Longrightarrow> y \<notin> ?S" by blast
  from z rdy have "pending (edges tm) topo z \<noteq> 0" by auto
  then obtain e where e: "e \<in> set (edges tm)" "snd e = z" "fst e \<notin> set topo"
    by (auto simp: pending_0)
  with E have "fst e \<in> ?S" by auto
  moreover from e have "(fst e, z) \<in> set (edges tm)" by (metis prod.collapse)
  ultimately show False using zmin by blast
qed

lemma length_takeWhile_mem:
  "a \<in> set xs \<Longrightarrow> length (takeWhile (\<lambda>x. x \<noteq> a) xs) < length xs"
  by (induction xs) auto

lemma precedes_index:
  assumes "precedes xs a b"
  shows "length (takeWhile (\<lambda>x. x \<noteq> a) xs) < length (takeWhile (\<lambda>x. x \<noteq> b) xs)"
proof -
  let ?P = "takeWhile (\<lambda>x. x \<noteq> b) xs"
  from assms have a: "a \<in> set ?P" by (simp add: precedes_def)
  have "xs = ?P @ dropWhile (\<lambda>x. x \<noteq> b) xs" by simp
  then have "takeWhile (\<lambda>x. x \<noteq> a) xs = takeWhile (\<lambda>x. x \<noteq> a) ?P"
    using a by (metis (mono_tags, lifting) takeWhile_append1)
  with length_takeWhile_mem [OF a] show ?thesis by simp
qed

lemma ordered_acyclic:
  assumes "\<forall>e \<in> R. precedes xs (fst e) (snd e)"
  shows "(x, x) \<notin> R\<^sup>+"
proof -
  let ?f = "\<lambda>a. length (takeWhile (\<lambda>x. x \<noteq> a) xs)"
  have "R \<subseteq> measure ?f"
    using assms precedes_index by (fastforce simp: measure_def inv_image_def)
  then have "acyclic R" by (rule acyclic_subset [OF wf_acyclic [OF wf_measure]])
  then show ?thesis by (simp add: acyclic_def)
qed

section \<open>Rejected inputs\<close>

text \<open>
  The conditions of rejection, in the words of the spec: a descriptor that lacks a
  non-empty title, has non-numeric or non-positive \<open>estimatedHours\<close>, or a due date that
  fails strict parsing; a repeated title; a dependency on an unknown task or on the task
  itself; a cycle of dependencies.
\<close>

definition bad_descriptor :: "calendar \<Rightarrow> raw_task \<Rightarrow> bool" where
  "bad_descriptor cal t =
     (raw_title t = None \<or> raw_title t = Some [] \<or> raw_estimatedHours t = None \<or>
      (\<exists>h. raw_estimatedHours t = Some h \<and> h \<le> 0) \<or>
      \<not> isValid (parse cal True (raw_dueDate t)))"

definition dep_rel :: "raw_task list \<Rightarrow> (string \<times> string) set" where
  "dep_rel ts = {(d, ti). \<exists>t \<in> set ts. raw_title t = Some ti \<and> d \<in> set (deps_of t)}"

definition rejected :: "calendar \<Rightarrow> input \<Rightarrow> bool" where
  "rejected cal inp =
     (case tasks inp of
        None \<Rightarrow> True
      | Some ts \<Rightarrow>
          ts = [] \<or> (\<exists>t \<in> set ts. bad_descriptor cal t) \<or> \<not> distinct (map raw_title ts) \<or>
          (\<exists>t \<in> set ts. \<exists>d \<in> set (deps_of t). Some d \<notin> raw_title ` set ts \<or> raw_title t = Some d) \<or>
          (\<exists>x. (x, x) \<in> (dep_rel ts)\<^sup>+))"

text \<open>The registry and the sequencer: the error, if any, thrown before the allocator.\<close>

definition check_input :: "calendar \<Rightarrow> input \<Rightarrow> error option" where
  "check_input cal inp =
     (case tasks inp of
        None \<Rightarrow> Some TasksNotArray
      | Some ts \<Rightarrow>
          if ts = [] then Some TasksNotArray
          else (case register cal ts [] of
                  Inl e \<Rightarrow> Some e
                | Inr tm \<Rightarrow>
                    (case validate_deps tm tm of
                       Some e \<Rightarrow> Some e
                     | None \<Rightarrow> (case sequence tm of Inl e \<Rightarrow> Some e | Inr topo \<Rightarrow> None))))"

lemma well_formed_iff: "well_formed cal t \<longleftrightarrow> \<not> bad_descriptor cal t"
  by (cases "raw_title t"; cases "raw_estimatedHours t")
     (auto simp: well_formed_def bad_descriptor_def)

lemma well_formed_titles:
  "list_all (well_formed cal) ts \<Longrightarrow> map raw_title ts = map Some (map title_of ts)"
  by (induction ts) (auto simp: well_formed_def title_of_def split: option.splits)

lemma register_rejects:
  "(\<exists>e. register cal ts [] = Inl e) \<longleftrightarrow>
     (\<exists>t \<in> set ts. bad_descriptor cal t) \<or> \<not> distinct (map raw_title ts)"
proof -
  have "(\<exists>tm. register cal ts [] = Inr tm) \<longleftrightarrow>
      list_all (well_formed cal) ts \<and> distinct (map (\<lambda>t. the (raw_title t)) ts)"
    by (simp add: register_Inr)
  also have "\<dots> \<longleftrightarrow> list_all (well_formed cal) ts \<and> distinct (map raw_title ts)"
  proof (cases "list_all (well_formed cal) ts")
    case True
    have "distinct (map Some xs) = distinct xs" for xs :: "string list"
      by (simp add: distinct_map)
    from this [of "map title_of ts"]
    have "distinct (map Some (map title_of ts)) = distinct (map title_of ts)" .
    then have "distinct (map raw_title ts) = distinct (map title_of ts)"
      unfolding well_formed_titles [OF True] .
    moreover have "map title_of ts = map (\<lambda>t. the (raw_title t)) ts"
      by (simp add: title_of_def [abs_def])
    ultimately show ?thesis by simp
  next
    case False
    then show ?thesis by simp
  qed
  also have "\<dots> \<longleftrightarrow> \<not> ((\<exists>t \<in> set ts. bad_descriptor cal t) \<or> \<not> distinct (map raw_title ts))"
    by (auto simp: list_all_iff well_formed_iff)
  finally show ?thesis by (cases "register cal ts []") auto
qed

lemma registered_raw_title:
  assumes "register cal ts [] = Inr tm" and "t \<in> set ts"
  shows "raw_title t = Some (title_of t)"
proof -
  from assms have "well_formed cal t" by (simp add: register_Inr list_all_iff)
  then show ?thesis by (auto simp: well_formed_def title_of_def split: option.splits)
qed

lemma registered_has:
  assumes r: "register cal ts [] = Inr tm"
  shows "has tm d \<longleftrightarrow> Some d \<in> raw_title ` set ts"
proof -
  from r have wf: "list_all (well_formed cal) ts" and tm: "tm = map (normalize_task cal) ts"
    by (simp_all add: register_Inr)
  have "has tm d \<longleftrightarrow> d \<in> fst ` set tm" by (simp add: has_def map_of_eq_None_iff)
  also have "\<dots> \<longleftrightarrow> d \<in> set (map title_of ts)" by (simp add: tm image_image)
  also have "\<dots> \<longleftrightarrow> Some d \<in> set (map Some (map title_of ts))" by auto
  also have "\<dots> \<longleftrightarrow> Some d \<in> raw_title ` set ts"
    using well_formed_titles [OF wf] by (metis list.set_map)
  finally show ?thesis .
qed

lemma validate_rejects:
  assumes r: "register cal ts [] = Inr tm"
  shows "(\<exists>e. validate_deps tm tm = Some e) \<longleftrightarrow>
     (\<exists>t \<in> set ts. \<exists>d \<in> set (deps_of t). Some d \<notin> raw_title ` set ts \<or> raw_title t = Some d)"
proof -
  from r have tm: "tm = map (normalize_task cal) ts" by (simp add: register_Inr)
  have "validate_deps tm tm = None \<longleftrightarrow>
      (\<forall>t \<in> set ts. \<forall>d \<in> set (deps_of t). has tm d \<and> d \<noteq> title_of t)"
    unfolding validate_deps_None tm
    by (auto simp: normalize_task_def deps_of_def title_of_def)
  also have "\<dots> \<longleftrightarrow>
      (\<forall>t \<in> set ts. \<forall>d \<in> set (deps_of t). Some d \<in> raw_title ` set ts \<and> raw_title t \<noteq> Some d)"
    using registered_has [OF r] registered_raw_title [OF r] by auto
  finally show ?thesis by (cases "validate_deps tm tm") auto
qed

lemma registered_edges:
  assumes r: "register cal ts [] = Inr tm"
  shows "set (edges tm) = dep_rel ts"
proof -
  from r have tm: "tm = map (normalize_task cal) ts" by (simp add: register_Inr)
  have "(d, ti) \<in> set (edges tm) \<longleftrightarrow> (d, ti) \<in> dep_rel ts" for d ti
  proof -
    have "(d, ti) \<in> set (edges tm) \<longleftrightarrow>
        (\<exists>t \<in> set ts. title_of t = ti \<and> d \<in> set (deps_of t))"
    proof
      assume "(d, ti) \<in> set (edges tm)"
      then obtain t' where "(ti, t') \<in> set tm" "d \<in> set (dependencies t')"
        unfolding edges_iff by blast
      with tm obtain rt where "rt \<in> set ts" "(ti, t') = normalize_task cal rt" by auto
      moreover from this have "ti = title_of rt" "dependencies t' = deps_of rt"
        by (metis normalize_fst fst_conv, metis normalize_snd(2) snd_conv)
      ultimately show "\<exists>t \<in> set ts. title_of t = ti \<and> d \<in> set (deps_of t)"
        using \<open>d \<in> set (dependencies t')\<close> by auto
    next
      assume "\<exists>t \<in> set ts. title_of t = ti \<and> d \<in> set (deps_of t)"
      then obtain rt where rt: "rt \<in> set ts" "title_of rt = ti" "d \<in> set (deps_of rt)" by blast
      from map_of_SomeD [OF registered_tasks(1) [OF r rt(1)]] rt(2)
      have "(ti, snd (normalize_task cal rt)) \<in> set tm" by simp
      with rt(3) show "(d, ti) \<in> set (edges tm)"
        unfolding edges_iff by (intro exI [of _ "snd (normalize_task cal rt)"]) simp
    qed
    also have "\<dots> \<longleftrightarrow> (d, ti) \<in> dep_rel ts"
      using registered_raw_title [OF r] by (auto simp: dep_rel_def)
    finally show ?thesis .
  qed
  then show ?thesis by auto
qed

lemma cycle_rejects:
  assumes v: "valid_map tm"
  shows "sequence tm = Inl CycleDetected \<and> (\<exists>x. (x, x) \<in> (set (edges tm))\<^sup>+) \<or>
     (\<exists>topo. sequence tm = Inr topo) \<and> (\<forall>x. (x, x) \<notin> (set (edges tm))\<^sup>+)"
proof -
  from sequence_kahn [OF v] obtain topo indeg where inv: "kahn_inv tm topo [] indeg"
    and s: "sequence tm = (if length topo \<noteq> length tm then Inl CycleDetected else Inr topo)"
    by blast
  show ?thesis
  proof (cases "length topo \<noteq> length tm")
    case True
    from v have "distinct (map fst tm)" by (simp add: valid_map_def)
    from distinct_card [OF this] have "card (fst ` set tm) = length tm" by simp
    moreover from inv have "distinct topo" by (simp add: kahn_inv_def)
    then have "card (set topo) = length topo" by (rule distinct_card)
    ultimately have ne: "set topo \<noteq> fst ` set tm" using True by auto
    have E: "\<forall>e \<in> set (edges tm). fst e \<in> fst ` set tm"
    proof
      fix e assume "e \<in> set (edges tm)"
      then obtain t where "(snd e, t) \<in> set tm" "fst e \<in> set (dependencies t)"
        using edges_iff [of "fst e" "snd e" tm] by auto
      with v show "fst e \<in> fst ` set tm" unfolding valid_map_def by blast
    qed
    from kahn_stuck_cycle [OF inv E ne] s True show ?thesis by simp
  next
    case False
    with s have s': "sequence tm = Inr topo" by simp
    from sequence_Inr [OF v s'] have "\<forall>e \<in> set (edges tm). precedes topo (fst e) (snd e)"
      by simp
    from ordered_acyclic [OF this] s' show ?thesis by blast
  qed
qed

lemma check_input_rejected: "(\<exists>e. check_input cal inp = Some e) \<longleftrightarrow> rejected cal inp"
proof (cases "tasks inp")
  case None
  then show ?thesis by (simp add: check_input_def rejected_def)
next
  case (Some ts)
  show ?thesis
  proof (cases "ts = []")
    case True
    with Some show ?thesis by (simp add: check_input_def rejected_def)
  next
    case ne: False
    show ?thesis
    proof (cases "register cal ts []")
      case (Inl e)
      with register_rejects [of cal ts]
      have "(\<exists>t \<in> set ts. bad_descriptor cal t) \<or> \<not> distinct (map raw_title ts)" by blast
      with Some ne Inl show ?thesis by (auto simp: check_input_def rejected_def)
    next
      case (Inr tm)
      with register_rejects [of cal ts]
      have ok1: "\<not> ((\<exists>t \<in> set ts. bad_descriptor cal t) \<or> \<not> distinct (map raw_title ts))"
        by auto
      show ?thesis
      proof (cases "validate_deps tm tm")
        case (Some e)
        with validate_rejects [OF Inr]
        have "\<exists>t \<in> set ts. \<exists>d \<in> set (deps_of t). Some d \<notin> raw_title ` set ts \<or> raw_title t = Some d"
          by blast
        with \<open>tasks inp = Some ts\<close> ne Inr Some show ?thesis
          by (simp add: check_input_def rejected_def)
      next
        case None
        with validate_rejects [OF Inr]
        have ok2: "\<not> (\<exists>t \<in> set ts. \<exists>d \<in> set (deps_of t).
            Some d \<notin> raw_title ` set ts \<or> raw_title t = Some d)"
          by auto
        have v: "valid_map tm" by (rule registered_valid [OF Inr None])
        have c: "(\<exists>e. check_input cal inp = Some e) \<longleftrightarrow> (\<exists>e. sequence tm = Inl e)"
          using \<open>tasks inp = Some ts\<close> ne Inr None
          by (cases "sequence tm") (simp_all add: check_input_def)
        have "(\<exists>e. sequence tm = Inl e) \<longleftrightarrow> (\<exists>x. (x, x) \<in> (dep_rel ts)\<^sup>+)"
          using cycle_rejects [OF v] unfolding registered_edges [OF Inr] by auto
        with c ok1 ok2 \<open>tasks inp = Some ts\<close> ne show ?thesis
          by (simp add: rejected_def)
      qed
    qed
  qed
qed

lemma scheduleTasks_error:
  "scheduleTasks cal inp = Some (Inl e) \<longleftrightarrow> check_input cal inp = Some e"
proof (cases "\<exists>ts tm topo. tasks inp = Some ts \<and> ts \<noteq> [] \<and> register cal ts [] = Inr tm \<and>
    validate_deps tm tm = None \<and> sequence tm = Inr topo")
  case True
  then obtain ts tm topo where a: "tasks inp = Some ts" "ts \<noteq> []" "register cal ts [] = Inr tm"
    "validate_deps tm tm = None" "sequence tm = Inr topo" by blast
  have v: "valid_map tm" by (rule registered_valid [OF a(3,4)])
  have "run_allocator cal inp tm topo \<noteq> Some (Inl e)"
    using run_allocator_Some [OF v a(5)] by auto
  with a show ?thesis by (simp add: scheduleTasks_unfold check_input_def)
next
  case False
  then show ?thesis
    unfolding scheduleTasks_unfold check_input_def
    by (auto split: option.splits sum.splits)
qed

lemma register_error: "register cal ts tm = Inl e \<Longrightarrow> e \<noteq> TypeError"
proof (induction ts arbitrary: tm)
  case Nil
  then show ?case by simp
next
  case (Cons t ts)
  then show ?case
    by (auto split: option.splits if_splits)
qed

lemma check_deps_error: "check_deps tm ti ds = Some e \<Longrightarrow> e \<noteq> TypeError"
  by (induction ds) (auto split: if_splits)

lemma validate_deps_error: "validate_deps tm es = Some e \<Longrightarrow> e \<noteq> TypeError"
  by (induction es) (auto split: option.splits dest: check_deps_error)

lemma check_input_error:
  assumes c: "check_input cal inp = Some e"
  shows "e \<noteq> TypeError"
proof (cases "tasks inp")
  case None
  with c show ?thesis by (simp add: check_input_def)
next
  case (Some ts)
  show ?thesis
  proof (cases "ts = []")
    case True
    with c Some show ?thesis by (simp add: check_input_def)
  next
    case ne: False
    show ?thesis
    proof (cases "register cal ts []")
      case (Inl e')
      with c Some ne have "e' = e" by (simp add: check_input_def)
      with Inl register_error show ?thesis by blast
    next
      case (Inr tm)
      show ?thesis
      proof (cases "validate_deps tm tm")
        case vs: (Some e')
        with c Some ne Inr have "e' = e" by (simp add: check_input_def)
        with vs validate_deps_error show ?thesis by blast
      next
        case None
        with c Some ne Inr have "sequence tm = Inl e"
          by (cases "sequence tm") (simp_all add: check_input_def)
        with cycle_rejects [OF registered_valid [OF Inr None]] show ?thesis by auto
      qed
    qed
  qed
qed

text \<open>Two tasks that depend on each other.\<close>

definition ex_cycle :: input where
  "ex_cycle =
     \<lparr>tasks = Some
        [\<lparr>raw_title = Some ''A'', raw_estimatedHours = Some 1, raw_dueDate = ''2024-01-10'',
          raw_dependencies = Some [''B'']\<rparr>,
         \<lparr>raw_title = Some ''B'', raw_estimatedHours = Some 1, raw_dueDate = ''2024-01-10'',
          raw_dependencies = Some [''A'']\<rparr>],
      workHoursPerDay = None, workDays = None, startDate = Some ''2024-01-08''\<rparr>"

lemma ex_cycle_run: "scheduleTasks (iso_calendar 0) ex_cycle = Some (Inl CycleDetected)"
  by code_simp

text \<open>
  C4. \<open>scheduleTasks\<close> throws an error exactly when the input is rejected in the sense
  of the spec. The error is the one of the registry or the sequencer, which run before
  the allocator, and it is none of the TypeErrors of the model.
\<close>

theorem errors_exactly_rejected:
  "(scheduleTasks cal inp = Some (Inl e) \<longleftrightarrow> check_input cal inp = Some e) \<and>
   ((\<exists>e. scheduleTasks cal inp = Some (Inl e)) \<longleftrightarrow> rejected cal inp) \<and>
   (scheduleTasks cal inp = Some (Inl e) \<longrightarrow> e \<noteq> TypeError)"
  using scheduleTasks_error [of cal inp] check_input_rejected [of cal inp]
    check_input_error [of cal inp e]
  by simp

theorem errors_exactly_rejected_witness:
  "scheduleTasks (iso_calendar 0) ex_cycle = Some (Inl CycleDetected) \<and>
   check_input (iso_calendar 0) ex_cycle = Some CycleDetected \<and>
   rejected (iso_calendar 0) ex_cycle"
  using errors_exactly_rejected [of "iso_calendar 0" ex_cycle CycleDetected] ex_cycle_run
  by auto

section \<open>The priority order\<close>

lemma localeCompare_refl [simp]: "localeCompare a a = 0"
  by (induction a) auto




























section \<open>Calls that do not return\<close>

lemma nextWorkday_Invalid: "nextWorkday InvalidDate wds = None"
  by (cases "nextWorkday InvalidDate wds") (auto dest: nextWorkday_Some)

lemma nextWorkday_no_days: "nextWorkday d [] = None"
  by (cases "nextWorkday d []") (auto dest: nextWorkday_Some)

lemma accepted_run:
  assumes "check_input cal inp = None"
  shows "\<exists>tm topo. scheduleTasks cal inp = run_allocator cal inp tm topo"
  using assms unfolding check_input_def scheduleTasks_unfold
  by (auto split: option.splits if_splits sum.splits)

lemma invalid_start_hangs:
  assumes "check_input cal inp = None" and "startDate inp = Some s" and "s \<noteq> []"
    and "parse cal False s = InvalidDate"
  shows "scheduleTasks cal inp = None"
proof -
  from accepted_run [OF assms(1)] obtain tm topo where
    "scheduleTasks cal inp = run_allocator cal inp tm topo" by blast
  with assms(2-4) show ?thesis
    by (simp add: run_allocator_def nextWorkday_Invalid)
qed

lemma no_workdays_hangs:
  assumes "check_input cal inp = None" and "workDays inp = Some []"
  shows "scheduleTasks cal inp = None"
proof -
  from accepted_run [OF assms(1)] obtain tm topo where
    "scheduleTasks cal inp = run_allocator cal inp tm topo" by blast
  with assms(2) show ?thesis
    by (simp add: run_allocator_def workDays_of_def nextWorkday_no_days Let_def)
qed

text \<open>The tasks of the first example with a start date that is no date.\<close>

definition ex_bad_start :: input where
  "ex_bad_start = ex_input\<lparr>startDate := Some ''not-a-date''\<rparr>"

text \<open>The tasks of the first example with an empty set of workdays.\<close>

definition ex_no_days :: input where
  "ex_no_days = ex_input\<lparr>workDays := Some []\<rparr>"

lemma ex_bad_start_accepted: "check_input (iso_calendar 0) ex_bad_start = None"
  by code_simp

lemma ex_no_days_accepted: "check_input (iso_calendar 0) ex_no_days = None"
  by code_simp

text \<open>
  C5, at the input that the code gets wrong. The due dates go through \<open>parseDate\<close> and
  its strict test; the start date does not. A start date that is no date in the format
  is not rejected: the call throws no error, and with the invalid date it does not
  return at all.
\<close>

theorem start_date_not_validated:
  "\<not> isValid (parse (iso_calendar 0) True ''not-a-date'') \<and>
   startDate ex_bad_start = Some ''not-a-date'' \<and>
   scheduleTasks (iso_calendar 0) ex_bad_start = None"
proof -
  have p: "parse (iso_calendar 0) b ''not-a-date'' = InvalidDate" for b
    by (simp add: iso_calendar_def iso_parse_def)
  have s: "startDate ex_bad_start = Some ''not-a-date''"
    by (simp add: ex_bad_start_def)
  from invalid_start_hangs [OF ex_bad_start_accepted s _ p] p s show ?thesis by simp
qed

text \<open>
  C9, at the input that the code gets wrong. With an empty set of workdays the search
  for the first workday never ends: the call neither returns nor throws.
\<close>

theorem empty_workdays_no_return:
  "workDays ex_no_days = Some [] \<and> check_input (iso_calendar 0) ex_no_days = None \<and>
   scheduleTasks (iso_calendar 0) ex_no_days = None"
proof -
  have w: "workDays ex_no_days = Some []" by (simp add: ex_no_days_def)
  from no_workdays_hangs [OF ex_no_days_accepted w] w ex_no_days_accepted
  show ?thesis by simp
qed

section \<open>Calls that return\<close>

text \<open>
  When some weekday name is a workday, the search for the next workday ends within a
  week.
\<close>

lemma nextWorkday_within:
  "WEEKDAY_NAME ! day (n + int j) \<in> set wds \<Longrightarrow> \<exists>m. nextWorkday (Date n) wds = Some m"
proof (induction j arbitrary: n)
  case 0
  then show ?case by (subst nextWorkday.simps) simp
next
  case (Suc j)
  show ?case
  proof (cases "WEEKDAY_NAME ! day n \<in> set wds")
    case True
    then show ?thesis by (subst nextWorkday.simps) simp
  next
    case False
    have "n + int (Suc j) = n + 1 + int j" by simp
    from Suc.prems [unfolded this] have "WEEKDAY_NAME ! day (n + 1 + int j) \<in> set wds" .
    from Suc.IH [OF this] False show ?thesis by (subst nextWorkday.simps) simp
  qed
qed

lemma day_reached:
  assumes "k < 7"
  shows "day (n + int (nat ((int k - 4 - n) mod 7))) = k"
proof -
  have "int (nat ((int k - 4 - n) mod 7)) = (int k - 4 - n) mod 7" by simp
  moreover have "(n + (int k - 4 - n) mod 7 + 4) mod 7 = (n + (int k - 4 - n) + 4) mod 7"
  proof -
    have "(n + (int k - 4 - n) mod 7 + 4) mod 7 = ((n + 4) + (int k - 4 - n) mod 7) mod 7"
      by (simp only: add.assoc add.commute add.left_commute)
    also have "\<dots> = ((n + 4) + (int k - 4 - n)) mod 7" by (rule mod_add_right_eq)
    also have "\<dots> = (n + (int k - 4 - n) + 4) mod 7"
      by (simp only: add.assoc add.commute add.left_commute)
    finally show ?thesis .
  qed
  moreover have "(n + (int k - 4 - n) + 4) mod 7 = int k" using assms by simp
  ultimately show ?thesis by (simp add: day_def)
qed

lemma nextWorkday_returns:
  assumes "\<exists>k<7. WEEKDAY_NAME ! k \<in> set wds"
  shows "\<exists>m. nextWorkday (Date n) wds = Some m"
proof -
  from assms obtain k where k: "k < 7" "WEEKDAY_NAME ! k \<in> set wds" by blast
  from day_reached [OF k(1), of n] k(2)
  have "WEEKDAY_NAME ! day (n + int (nat ((int k - 4 - n) mod 7))) \<in> set wds" by simp
  then show ?thesis by (rule nextWorkday_within)
qed

lemma advance_returns:
  assumes "\<exists>k<7. WEEKDAY_NAME ! k \<in> set wds"
  shows "\<exists>m. advanceToNextWorkday wds h st = Some (st\<lparr>currentDay := m, freeHoursToday := h\<rparr>)"
  using nextWorkday_returns [OF assms, of "currentDay st + 1"]
  by (auto simp: advanceToNextWorkday_def)

text \<open>
  The measure of the loop of \<open>allocate\<close>: the days that the hours left still need, and
  one more when the current day is not a fresh one.
\<close>

definition days_left :: "real \<Rightarrow> real \<Rightarrow> alloc_state \<Rightarrow> nat" where
  "days_left h rem st =
     (if rem \<le> 0 then 0
      else nat \<lceil>rem / h\<rceil> + (if freeHoursToday st = h then 0 else 1))"

lemma alloc_iter_decreases:
  assumes w: "\<exists>k<7. WEEKDAY_NAME ! k \<in> set wds" and h: "0 < h" and rem: "0 < rem"
  shows "\<exists>r1 s1. alloc_iter wds h t ti rem st = Some (r1, s1) \<and>
     days_left h r1 s1 < days_left h rem st"
proof -
  define sw where "sw = (if isAfter (Date (currentDay st)) (dueDate t) \<and> rem > 0
                 then st\<lparr>warnings := warnings st @ [(ti, dueDate t, currentDay st)]\<rparr>
                 else st)"
  have f: "freeHoursToday sw = freeHoursToday st" by (simp add: sw_def)
  from rem h have c1: "1 \<le> \<lceil>rem / h\<rceil>" by (simp add: Suc_le_eq)
  show ?thesis
  proof (cases "freeHoursToday sw \<le> 0")
    case True
    from advance_returns [OF w, of h sw] obtain m where
      a: "advanceToNextWorkday wds h sw = Some (sw\<lparr>currentDay := m, freeHoursToday := h\<rparr>)"
      by blast
    have "alloc_iter wds h t ti rem st = Some (rem, sw\<lparr>currentDay := m, freeHoursToday := h\<rparr>)"
      using True a unfolding alloc_iter_def sw_def [symmetric] Let_def by simp
    moreover have "days_left h rem (sw\<lparr>currentDay := m, freeHoursToday := h\<rparr>) < days_left h rem st"
      using True f h rem by (simp add: days_left_def)
    ultimately show ?thesis by blast
  next
    case False
    define a where "a = min (freeHoursToday sw) rem"
    define s3 where "s3 = sw\<lparr>schedule := addAllocation (currentDay sw) ti a (schedule sw),
               freeHoursToday := freeHoursToday sw - a\<rparr>"
    have e: "alloc_iter wds h t ti rem st =
        (if 0 < rem - a
         then map_option (Pair (rem - a)) (advanceToNextWorkday wds h s3)
         else Some (rem - a, s3))"
      using False unfolding alloc_iter_def sw_def [symmetric] Let_def a_def [symmetric]
      by (simp add: s3_def)
    show ?thesis
    proof (cases "0 < rem - a")
      case True
      from advance_returns [OF w, of h s3] obtain m where
        adv: "advanceToNextWorkday wds h s3 = Some (s3\<lparr>currentDay := m, freeHoursToday := h\<rparr>)"
        by blast
      from True have af: "a = freeHoursToday st" "0 < a" using False f by (auto simp: a_def)
      have le: "\<lceil>(rem - a) / h\<rceil> \<le> \<lceil>rem / h\<rceil>"
        using af(2) h by (intro ceiling_mono divide_right_mono) simp_all
      have "days_left h (rem - a) (s3\<lparr>currentDay := m, freeHoursToday := h\<rparr>) < days_left h rem st"
      proof (cases "freeHoursToday st = h")
        case eq: True
        with af have "(rem - a) / h = rem / h - 1" using h by (simp add: diff_divide_distrib)
        then have "\<lceil>(rem - a) / h\<rceil> = \<lceil>rem / h\<rceil> - 1" by simp
        with True rem eq c1 show ?thesis by (simp add: days_left_def)
      next
        case ne: False
        with True rem le c1 show ?thesis by (simp add: days_left_def)
      qed
      with e True adv show ?thesis by simp
    next
      case neg: False
      then have "days_left h (rem - a) s3 < days_left h rem st"
        using rem c1 by (simp add: days_left_def)
      with e neg show ?thesis by simp
    qed
  qed
qed

lemma allocate_returns:
  assumes w: "\<exists>k<7. WEEKDAY_NAME ! k \<in> set wds" and h: "0 < h"
  shows "\<exists>st'. allocate wds h t ti rem st = Some st'"
proof (induction "days_left h rem st" arbitrary: rem st rule: less_induct)
  case less
  show ?case
  proof (cases "0 < rem")
    case False
    then show ?thesis by (subst allocate_unfold) simp
  next
    case True
    from alloc_iter_decreases [OF w h True, of t ti st] obtain r1 s1 where
      it: "alloc_iter wds h t ti rem st = Some (r1, s1)"
      and dec: "days_left h r1 s1 < days_left h rem st" by blast
    from less [OF dec] obtain st' where "allocate wds h t ti r1 s1 = Some st'" by blast
    with True it show ?thesis by (subst allocate_unfold) simp
  qed
qed

lemma schedule_task_returns:
  assumes w: "\<exists>k<7. WEEKDAY_NAME ! k \<in> set wds" and h: "0 < h"
  shows "\<exists>r. schedule_task cal tm remaining wds h ti st = Some r"
proof (cases "map_of tm ti")
  case None
  then show ?thesis by (simp add: schedule_task_def)
next
  case (Some t)
  let ?er = "earliest_ready cal (finishedAt st) (dependencies t) 0"
  obtain st1 where j: "(if ?er > currentDay st
         then do { d \<leftarrow> nextWorkday (Date ?er) wds;
                   Some (st\<lparr>currentDay := d, freeHoursToday := h\<rparr>) }
         else Some st) = Some st1"
    using nextWorkday_returns [OF w, of ?er] by (cases "?er > currentDay st") auto
  obtain st2 where a: "(case map_of remaining ti of
                      None \<Rightarrow> Some st1
                    | Some rem \<Rightarrow> allocate wds h t ti rem st1) = Some st2"
    using allocate_returns [OF w h, of t ti _ st1] by (cases "map_of remaining ti") auto
  show ?thesis
    unfolding schedule_task_def using Some j a
    by (cases "lastDayRecord (schedule st2) ti") (simp_all add: Let_def)
qed

lemma allocate_all_returns:
  assumes w: "\<exists>k<7. WEEKDAY_NAME ! k \<in> set wds" and h: "0 < h"
  shows "\<exists>r. allocate_all cal tm remaining wds h todo st = Some r"
proof (induction todo arbitrary: st)
  case Nil
  show ?case by simp
next
  case (Cons ti todo)
  from schedule_task_returns [OF w h, of cal tm remaining ti st] obtain r where
    r: "schedule_task cal tm remaining wds h ti st = Some r" by blast
  show ?case
  proof (cases r)
    case (Inl e)
    with r show ?thesis by simp
  next
    case (Inr st')
    with r Cons.IH [of st'] show ?thesis by simp
  qed
qed

text \<open>
  The call returns or throws whenever one of the seven weekday names is a workday, the
  hours of a day are positive and the start, when given, is read as a date.
\<close>

lemma scheduleTasks_returns:
  assumes w: "\<exists>k<7. WEEKDAY_NAME ! k \<in> set (workDays_of inp)"
    and h: "0 < hoursPerDay_of inp"
    and s: "\<forall>s. startDate inp = Some s \<longrightarrow> s = [] \<or> isValid (parse cal False s)"
  shows "\<exists>r. scheduleTasks cal inp = Some r"
proof -
  let ?today = "case startDate inp of
                  Some s \<Rightarrow> if s \<noteq> [] then parse cal False s else Date (now cal)
                | None \<Rightarrow> Date (now cal)"
  from s obtain n where "?today = Date n"
    by (cases "startDate inp"; cases ?today) (auto split: if_splits)
  with nextWorkday_returns [OF w, of n] obtain d where d: "nextWorkday ?today (workDays_of inp) = Some d"
    by auto
  have run: "\<exists>r. run_allocator cal inp tm topo = Some r" for tm topo
    using d allocate_all_returns [OF w h]
    unfolding run_allocator_def Let_def
    by (simp add: bind_eq_Some_conv)
  show ?thesis
    unfolding scheduleTasks_unfold using run
    by (auto split: option.splits sum.splits)
qed

end
